theory Spec2Isabelle
  imports Main
begin

section \<open>JavaScript strings\<close>

text \<open>
  A JavaScript string is a sequence of UTF-16 code units. A code unit is modelled by its
  numeric value, a string by the list of its code units. The three connectives of the
  surface syntax lie in the Basic Multilingual Plane, so each is a single code unit:
  AND is U+2227, OR is U+2228, NOT is U+00AC.
\<close>

type_synonym jschar = nat
type_synonym jsstring = "jschar list"

abbreviation c_AND :: jschar where "c_AND \<equiv> 8743"
abbreviation c_OR :: jschar where "c_OR \<equiv> 8744"
abbreviation c_NOT :: jschar where "c_NOT \<equiv> 172"
abbreviation c_LP :: jschar where "c_LP \<equiv> 40"
abbreviation c_RP :: jschar where "c_RP \<equiv> 41"
abbreviation c_SP :: jschar where "c_SP \<equiv> 32"

text \<open>An ASCII string literal of the source, as code units.\<close>

definition ascii :: "string \<Rightarrow> jsstring" where
  "ascii s = map of_char s"

text \<open>
  The characters matched by \<^verbatim>\<open>\s\<close> in a regular expression; \<^verbatim>\<open>String.prototype.trim\<close>
  strips the same set (WhiteSpace and LineTerminator of ECMAScript).
\<close>

definition is_ws :: "jschar \<Rightarrow> bool" where
  "is_ws c \<longleftrightarrow>
     (9 \<le> c \<and> c \<le> 13) \<or> c = 32 \<or> c = 160 \<or> c = 5760 \<or> (8192 \<le> c \<and> c \<le> 8202) \<or>
     c = 8232 \<or> c = 8233 \<or> c = 8239 \<or> c = 8287 \<or> c = 12288 \<or> c = 65279"

text \<open>The character class \<^verbatim>\<open>[A-Za-z0-9]\<close>.\<close>

definition is_alnum :: "jschar \<Rightarrow> bool" where
  "is_alnum c \<longleftrightarrow> (65 \<le> c \<and> c \<le> 90) \<or> (97 \<le> c \<and> c \<le> 122) \<or> (48 \<le> c \<and> c \<le> 57)"

definition trim :: "jsstring \<Rightarrow> jsstring" where
  "trim s = rev (dropWhile is_ws (rev (dropWhile is_ws s)))"

text \<open>\<^verbatim>\<open>s.replace(/\s+/g, '')\<close> and \<^verbatim>\<open>s.replace(/[()]/g, '')\<close>.\<close>

definition remove_ws :: "jsstring \<Rightarrow> jsstring" where
  "remove_ws s = filter (\<lambda>c. \<not> is_ws c) s"

definition remove_parens :: "jsstring \<Rightarrow> jsstring" where
  "remove_parens s = filter (\<lambda>c. c \<noteq> c_LP \<and> c \<noteq> c_RP) s"

text \<open>
  \<^verbatim>\<open>s.split(d)\<close> for a separator of one code unit: the pieces between the occurrences
  of the separator; the empty string gives one empty piece.
\<close>

fun split_on :: "jschar \<Rightarrow> jsstring \<Rightarrow> jsstring list" where
  "split_on d [] = [[]]"
| "split_on d (c # cs) =
     (if c = d then [] # split_on d cs
      else (case split_on d cs of [] \<Rightarrow> [[c]] | p # ps \<Rightarrow> (c # p) # ps))"

text \<open>\<^verbatim>\<open>xs.join(sep)\<close>.\<close>

fun join :: "jsstring \<Rightarrow> jsstring list \<Rightarrow> jsstring" where
  "join sep [] = []"
| "join sep [x] = x"
| "join sep (x # y # ys) = x @ sep @ join sep (y # ys)"

text \<open>\<^verbatim>\<open>s.startsWith(p)\<close> and \<^verbatim>\<open>s.includes(p)\<close>.\<close>

definition startsWith :: "jsstring \<Rightarrow> jsstring \<Rightarrow> bool" where
  "startsWith s p \<longleftrightarrow> take (length p) s = p"

fun includesStr :: "jsstring \<Rightarrow> jsstring \<Rightarrow> bool" where
  "includesStr [] p = (p = [])"
| "includesStr (c # cs) p = (startsWith (c # cs) p \<or> includesStr cs p)"

text \<open>
  The decimal rendering of a non-negative integer, as a template literal or
  \<^verbatim>\<open>String(n)\<close> gives it. Counters and lengths are JavaScript numbers; they stay far
  below \<open>2^53\<close>, where a number is an exact integer, and are modelled by \<open>nat\<close>.
\<close>

function show_nat :: "nat \<Rightarrow> jsstring" where
  "show_nat n = (if n < 10 then [48 + n] else show_nat (n div 10) @ [48 + n mod 10])"
  by pat_completeness auto
termination
  by (relation "measure id") auto

declare show_nat.simps [simp del]

section \<open>The formula model, parser and renderer (utils/formulaParser)\<close>

record literal =
  variable :: jsstring
  negated :: bool

type_synonym clause = "literal list"
type_synonym CNFFormula = "clause list"

text \<open>
  The inner loop of \<^verbatim>\<open>parseFormula\<close>: a literal substring that is empty after
  trimming is skipped; otherwise a leading NOT symbol sets the flag and the rest
  (\<^verbatim>\<open>substring(1)\<close>) is the variable.
\<close>

fun parseLiterals :: "jsstring list \<Rightarrow> clause" where
  "parseLiterals [] = []"
| "parseLiterals (litStr # rest) =
     (if trim litStr \<noteq> [] then
        (let neg = startsWith litStr [c_NOT];
             var = (if neg then drop 1 litStr else litStr)
         in \<lparr>variable = var, negated = neg\<rparr> # parseLiterals rest)
      else parseLiterals rest)"

text \<open>The outer loop: a clause substring that yields no literal is not pushed.\<close>

fun parseClauses :: "jsstring list \<Rightarrow> CNFFormula" where
  "parseClauses [] = []"
| "parseClauses (clauseStr # rest) =
     (let cleaned = remove_parens clauseStr;
          literalStrings = split_on c_OR cleaned;
          cl = parseLiterals literalStrings
      in if length cl > 0 then cl # parseClauses rest else parseClauses rest)"

definition parseFormula :: "jsstring \<Rightarrow> CNFFormula" where
  "parseFormula input =
     (let formula = remove_ws input;
          clauseStrings = split_on c_AND formula
      in parseClauses clauseStrings)"

definition literalToString :: "literal \<Rightarrow> jsstring" where
  "literalToString lit = (if negated lit then [c_NOT] else []) @ variable lit"

definition clauseToString :: "clause \<Rightarrow> jsstring" where
  "clauseToString cl = [c_LP] @ join [c_SP, c_OR, c_SP] (map literalToString cl) @ [c_RP]"

definition formulaToString :: "CNFFormula \<Rightarrow> jsstring" where
  "formulaToString cnf = join [c_SP, c_AND, c_SP] (map clauseToString cnf)"

section \<open>The 3-CNF transformation\<close>

datatype transformMethod = Tseitin | Padding | Split

record transform_result =
  formula :: CNFFormula
  steps :: "jsstring list"

text \<open>
  The locals of \<^verbatim>\<open>transformTo3CNF\<close> that the loops update: the trace, the result and
  the counter. \<open>t_fresh\<close> is a history variable that the source does not have: it records,
  in order, every name built from \<^verbatim>\<open>helperVarCount++\<close>.
\<close>

record tstate =
  t_steps :: "jsstring list"
  t_result :: CNFFormula
  t_helperVarCount :: nat
  t_fresh :: "jsstring list"

text \<open>A template \<^verbatim>\<open>`x${helperVarCount++}`\<close> with the given letter.\<close>

definition freshVar :: "jschar \<Rightarrow> tstate \<Rightarrow> jsstring \<times> tstate" where
  "freshVar letter st =
     (let name = letter # show_nat (t_helperVarCount st)
      in (name, st\<lparr>t_helperVarCount := t_helperVarCount st + 1,
                    t_fresh := t_fresh st @ [name]\<rparr>))"

definition pushStep :: "jsstring \<Rightarrow> tstate \<Rightarrow> tstate" where
  "pushStep s st = st\<lparr>t_steps := t_steps st @ [s]\<rparr>"

definition pushClause :: "clause \<Rightarrow> tstate \<Rightarrow> tstate" where
  "pushClause cl st = st\<lparr>t_result := t_result st @ [cl]\<rparr>"

text \<open>The loop \<^verbatim>\<open>while (remaining.length > 3)\<close> of the splitting branch.\<close>

function splitWhile :: "clause \<Rightarrow> tstate \<Rightarrow> clause \<times> tstate" where
  "splitWhile remaining st =
     (if length remaining > 3 then
        (let (helperVar, st1) = freshVar 120 st;
             newClause = [remaining ! 0, remaining ! 1, \<lparr>variable = helperVar, negated = False\<rparr>];
             st2 = pushClause newClause st1;
             st3 = pushStep (ascii ''Created: '' @ formulaToString [newClause] @
                             ascii '' with helper '' @ helperVar) st2
         in splitWhile (\<lparr>variable = helperVar, negated = True\<rparr> # drop 2 remaining) st3)
      else (remaining, st))"
  by pat_completeness auto
termination
  by (relation "measure (\<lambda>(remaining, st). length remaining)") auto

declare splitWhile.simps [simp del]

text \<open>The body of the first loop of the splitting branch, for one clause.\<close>

definition splitClause :: "clause \<Rightarrow> tstate \<Rightarrow> tstate" where
  "splitClause cl st =
     (if length cl \<le> 3 then
        (let st1 = pushClause cl st
         in if length cl < 3 then
              pushStep (ascii ''Clause '' @ formulaToString [cl] @ ascii '' has '' @
                        show_nat (length cl) @ ascii '' literals - will pad later'') st1
            else st1)
      else
        (let st1 = pushStep (ascii ''Clause '' @ formulaToString [cl] @ ascii '' has '' @
                             show_nat (length cl) @ ascii '' literals - splitting...'') st;
             (remaining, st2) = splitWhile cl st1
         in if length remaining > 0 then
              pushStep (ascii ''Final part: '' @ formulaToString [remaining])
                (pushClause remaining st2)
            else st2))"

fun splitFor :: "CNFFormula \<Rightarrow> tstate \<Rightarrow> tstate" where
  "splitFor [] st = st"
| "splitFor (cl # rest) st = splitFor rest (splitClause cl st)"

text \<open>The callback of \<^verbatim>\<open>result.map\<close> in the splitting branch.\<close>

definition padClause :: "clause \<Rightarrow> tstate \<Rightarrow> clause \<times> tstate" where
  "padClause cl st =
     (if length cl = 1 then
        (let (padVar, st1) = freshVar 121 st;
             padded = cl @ [\<lparr>variable = padVar, negated = False\<rparr>,
                            \<lparr>variable = padVar, negated = True\<rparr>]
         in (padded, pushStep (ascii ''Padded '' @ formulaToString [cl] @ ascii '' to '' @
                               formulaToString [padded] @ ascii '' using '' @ padVar) st1))
      else if length cl = 2 then
        (let (padVar, st1) = freshVar 122 st;
             padded = cl @ [\<lparr>variable = padVar, negated = False\<rparr>]
         in (padded, pushStep (ascii ''Padded '' @ formulaToString [cl] @ ascii '' to '' @
                               formulaToString [padded] @ ascii '' using '' @ padVar) st1))
      else (cl, st))"

fun padMap :: "CNFFormula \<Rightarrow> tstate \<Rightarrow> CNFFormula \<times> tstate" where
  "padMap [] st = ([], st)"
| "padMap (cl # rest) st =
     (let (cl', st1) = padClause cl st;
          (rest', st2) = padMap rest st1
      in (cl' # rest', st2))"

text \<open>The loop \<^verbatim>\<open>while (padded.length < 3)\<close> of the padding branch.\<close>

function padWhile :: "clause \<Rightarrow> tstate \<Rightarrow> clause \<times> tstate" where
  "padWhile padded st =
     (if length padded < 3 then
        (let (padVar, st1) = freshVar 112 st
         in padWhile (padded @ [\<lparr>variable = padVar, negated = False\<rparr>])
              (pushStep (ascii ''Added padding variable '' @ padVar) st1))
      else (padded, st))"
  by pat_completeness auto
termination
  by (relation "measure (\<lambda>(padded, st). 3 - length padded)") auto

declare padWhile.simps [simp del]

definition paddingClause :: "clause \<Rightarrow> tstate \<Rightarrow> tstate" where
  "paddingClause cl st =
     (if length cl = 3 then pushClause cl st
      else if length cl < 3 then
        (let st1 = pushStep (ascii ''Padding short clause '' @ formulaToString [cl] @
                             ascii ''...'') st;
             (padded, st2) = padWhile cl st1
         in pushClause padded st2)
      else
        pushClause (take 3 cl)
          (pushStep (ascii ''Clause '' @ formulaToString [cl] @
                     ascii '' is too long - using first 3 literals (simplified)'') st))"

fun paddingFor :: "CNFFormula \<Rightarrow> tstate \<Rightarrow> tstate" where
  "paddingFor [] st = st"
| "paddingFor (cl # rest) st = paddingFor rest (paddingClause cl st)"

definition initState :: tstate where
  "initState = \<lparr>t_steps = [], t_result = [], t_helperVarCount = 1, t_fresh = []\<rparr>"

text \<open>The state when \<^verbatim>\<open>transformTo3CNF\<close> reaches its \<^verbatim>\<open>return\<close>.\<close>

definition transformRun :: "CNFFormula \<Rightarrow> transformMethod \<Rightarrow> tstate" where
  "transformRun cnf m =
     pushStep (ascii ''Transformation complete! All clauses now have exactly 3 literals.'')
       (if m = Tseitin \<or> m = Split then
          (let st1 = pushStep (ascii ''Identifying clauses that need splitting...'') initState;
               st2 = splitFor cnf st1;
               st3 = pushStep (ascii ''Padding short clauses to exactly 3 literals...'') st2;
               (res, st4) = padMap (t_result st3) st3
           in st4\<lparr>t_result := res\<rparr>)
        else
          paddingFor cnf (pushStep (ascii ''Using clause padding method...'') initState))"

definition transformTo3CNF :: "CNFFormula \<Rightarrow> transformMethod \<Rightarrow> transform_result" where
  "transformTo3CNF cnf m =
     (let st = transformRun cnf m in \<lparr>formula = t_result st, steps = t_steps st\<rparr>)"

text \<open>The names introduced from the counter during one call, in order.\<close>

definition freshNames :: "CNFFormula \<Rightarrow> transformMethod \<Rightarrow> jsstring list" where
  "freshNames cnf m = t_fresh (transformRun cnf m)"

section \<open>Validation\<close>

text \<open>
  \<^verbatim>\<open>validateFormula\<close> returns \<^verbatim>\<open>{ valid, error? }\<close> with one of four messages. The
  four reasons are named as the specification names them; \<open>errorMessage\<close> gives the
  message of each.
\<close>

datatype validationError = EmptyInput | UnbalancedParens | InvalidCharacter | ConsecutiveOperators

fun errorMessage :: "validationError \<Rightarrow> jsstring" where
  "errorMessage EmptyInput = ascii ''Formula cannot be empty''"
| "errorMessage UnbalancedParens = ascii ''Unbalanced parentheses''"
| "errorMessage InvalidCharacter =
     ascii ''Invalid characters. Use: letters, '' @ [c_OR] @ ascii '', '' @ [c_AND] @
     ascii '', '' @ [c_NOT] @ ascii '', parentheses''"
| "errorMessage ConsecutiveOperators = ascii ''Consecutive operators not allowed''"

record validation =
  valid :: bool
  error :: "jsstring option"

definition failWith :: "validationError \<Rightarrow> validation" where
  "failWith e = \<lparr>valid = False, error = Some (errorMessage e)\<rparr>"

text \<open>
  The loop over the characters of the input: \<open>None\<close> when it returns from inside the
  loop because the depth went below zero, the final depth otherwise. The source iterates
  by code point; a character outside the Basic Multilingual Plane is two code units,
  neither of them a parenthesis, so iterating by code unit gives the same depth.
\<close>

fun parenLoop :: "jsstring \<Rightarrow> int \<Rightarrow> int option" where
  "parenLoop [] depth = Some depth"
| "parenLoop (char # rest) depth =
     (let d1 = (if char = c_LP then depth + 1 else depth);
          d2 = (if char = c_RP then d1 - 1 else d1)
      in if d2 < 0 then None else parenLoop rest d2)"

text \<open>The character class of \<^verbatim>\<open>validChars\<close>.\<close>

definition validChar :: "jschar \<Rightarrow> bool" where
  "validChar c \<longleftrightarrow>
     is_alnum c \<or> c = c_OR \<or> c = c_AND \<or> c = c_NOT \<or> c = c_LP \<or> c = c_RP \<or> is_ws c"

text \<open>\<^verbatim>\<open>/^[...]+$/.test(input)\<close>: at least one character, and every character in the class.\<close>

definition validCharsTest :: "jsstring \<Rightarrow> bool" where
  "validCharsTest input \<longleftrightarrow> input \<noteq> [] \<and> list_all validChar input"

definition validateFormula :: "jsstring \<Rightarrow> validation" where
  "validateFormula input =
     (if trim input = [] then failWith EmptyInput
      else
        (case parenLoop input 0 of
           None \<Rightarrow> failWith UnbalancedParens
         | Some depth \<Rightarrow>
             if depth \<noteq> 0 then failWith UnbalancedParens
             else if \<not> validCharsTest input then failWith InvalidCharacter
             else if includesStr input [c_AND, c_AND] \<or> includesStr input [c_OR, c_OR]
               then failWith ConsecutiveOperators
             else \<lparr>valid = True, error = None\<rparr>))"

section \<open>Graph lowering and clique search (components/CliqueGraphAnimation)\<close>

text \<open>
  The component's \<^verbatim>\<open>Literal\<close> has the two fields of the parser's literal and three
  more. Coordinates are small non-negative integers.
\<close>

record graphLiteral = literal +
  lit_id :: jsstring
  clauseIndex :: nat
  position :: "nat \<times> nat"

record edge =
  edge_from :: jsstring
  edge_to :: jsstring

record graph =
  literals :: "graphLiteral list"
  edges :: "edge list"

definition positions :: "(nat \<times> nat) list list" where
  "positions =
     [[(60, 80), (100, 140), (140, 80)],
      [(200, 80), (200, 150), (240, 220)],
      [(300, 150), (340, 80), (380, 140)]]"

text \<open>\<^verbatim>\<open>positions[clauseIdx]?.[litIdx] || { x: 200, y: 150 }\<close>.\<close>

definition positionOf :: "nat \<Rightarrow> nat \<Rightarrow> nat \<times> nat" where
  "positionOf clauseIdx litIdx =
     (if clauseIdx < length positions \<and> litIdx < length (positions ! clauseIdx)
      then positions ! clauseIdx ! litIdx else (200, 150))"

text \<open>The template \<^verbatim>\<open>`c${clauseIdx}-l${litIdx}`\<close>.\<close>

definition literalId :: "nat \<Rightarrow> nat \<Rightarrow> jsstring" where
  "literalId clauseIdx litIdx = 99 # show_nat clauseIdx @ [45, 108] @ show_nat litIdx"

text \<open>The body of the inner \<^verbatim>\<open>forEach\<close>: every piece becomes a literal, also an empty one.\<close>

definition makeLiteral :: "nat \<Rightarrow> nat \<Rightarrow> jsstring \<Rightarrow> graphLiteral" where
  "makeLiteral clauseIdx litIdx l =
     (let neg = startsWith l [c_NOT];
          var = (if neg then drop 1 l else l)
      in \<lparr>variable = var, negated = neg, lit_id = literalId clauseIdx litIdx,
          clauseIndex = clauseIdx, position = positionOf clauseIdx litIdx\<rparr>)"

definition clauseLiterals :: "nat \<Rightarrow> jsstring \<Rightarrow> graphLiteral list" where
  "clauseLiterals clauseIdx cl =
     (let lits = map trim (split_on c_OR cl)
      in map (\<lambda>(litIdx, l). makeLiteral clauseIdx litIdx l) (enumerate 0 lits))"

definition isContradictory :: "graphLiteral \<Rightarrow> graphLiteral \<Rightarrow> bool" where
  "isContradictory lit1 lit2 \<longleftrightarrow> variable lit1 = variable lit2 \<and> negated lit1 \<noteq> negated lit2"

text \<open>The two nested \<^verbatim>\<open>for\<close> loops over \<open>i\<close> and \<open>j > i\<close>.\<close>

definition generateEdges :: "graphLiteral list \<Rightarrow> edge list" where
  "generateEdges lits =
     concat (map (\<lambda>i.
       concat (map (\<lambda>j.
         (let lit1 = lits ! i; lit2 = lits ! j
          in if clauseIndex lit1 \<noteq> clauseIndex lit2 then
               (if \<not> isContradictory lit1 lit2
                then [\<lparr>edge_from = lit_id lit1, edge_to = lit_id lit2\<rparr>] else [])
             else []))
         [i + 1 ..< length lits]))
       [0 ..< length lits])"

definition parseFormulaToGraph :: "jsstring \<Rightarrow> graph" where
  "parseFormulaToGraph input =
     (let clauses = map (\<lambda>c. remove_parens (trim c)) (split_on c_AND input);
          lits = concat (map (\<lambda>(clauseIdx, cl). clauseLiterals clauseIdx cl)
                   (enumerate 0 clauses))
      in \<lparr>literals = lits, edges = generateEdges lits\<rparr>)"

text \<open>\<^verbatim>\<open>edges.some(e => (e.from === a && e.to === b) || (e.from === b && e.to === a))\<close>.\<close>

definition hasEdge :: "edge list \<Rightarrow> jsstring \<Rightarrow> jsstring \<Rightarrow> bool" where
  "hasEdge es a b \<longleftrightarrow>
     list_ex (\<lambda>e. (edge_from e = a \<and> edge_to e = b) \<or> (edge_from e = b \<and> edge_to e = a)) es"

text \<open>
  The three nested loops of \<^verbatim>\<open>findClique\<close>, innermost first. Each returns the ids of
  the first triple it accepts, or \<open>None\<close> when it runs to its end.
\<close>

fun cliqueLoop3 :: "edge list \<Rightarrow> graphLiteral \<Rightarrow> graphLiteral \<Rightarrow> graphLiteral list \<Rightarrow>
    jsstring list option" where
  "cliqueLoop3 es l1 l2 [] = None"
| "cliqueLoop3 es l1 l2 (l3 # rest) =
     (let hasEdge12 = hasEdge es (lit_id l1) (lit_id l2);
          hasEdge13 = hasEdge es (lit_id l1) (lit_id l3);
          hasEdge23 = hasEdge es (lit_id l2) (lit_id l3)
      in if hasEdge12 \<and> hasEdge13 \<and> hasEdge23 then Some [lit_id l1, lit_id l2, lit_id l3]
         else cliqueLoop3 es l1 l2 rest)"

fun cliqueLoop2 :: "edge list \<Rightarrow> graphLiteral \<Rightarrow> graphLiteral list \<Rightarrow> graphLiteral list \<Rightarrow>
    jsstring list option" where
  "cliqueLoop2 es l1 [] group2 = None"
| "cliqueLoop2 es l1 (l2 # rest) group2 =
     (case cliqueLoop3 es l1 l2 group2 of
        Some w \<Rightarrow> Some w
      | None \<Rightarrow> cliqueLoop2 es l1 rest group2)"

fun cliqueLoop1 :: "edge list \<Rightarrow> graphLiteral list \<Rightarrow> graphLiteral list \<Rightarrow> graphLiteral list \<Rightarrow>
    jsstring list option" where
  "cliqueLoop1 es [] group1 group2 = None"
| "cliqueLoop1 es (l1 # rest) group1 group2 =
     (case cliqueLoop2 es l1 group1 group2 of
        Some w \<Rightarrow> Some w
      | None \<Rightarrow> cliqueLoop1 es rest group1 group2)"

text \<open>
  \<^verbatim>\<open>findClique\<close> reads the component's \<^verbatim>\<open>literals\<close> and \<^verbatim>\<open>edges\<close>. The absent result
  is the empty array.
\<close>

definition findClique :: "graph \<Rightarrow> jsstring list" where
  "findClique g =
     (let clauseGroups =
            [filter (\<lambda>l. clauseIndex l = 0) (literals g),
             filter (\<lambda>l. clauseIndex l = 1) (literals g),
             filter (\<lambda>l. clauseIndex l = 2) (literals g)]
      in case cliqueLoop1 (edges g) (clauseGroups ! 0) (clauseGroups ! 1) (clauseGroups ! 2) of
           Some w \<Rightarrow> w
         | None \<Rightarrow> [])"

section \<open>Auxiliary definitions for the proofs\<close>

text \<open>One iteration of the loop in \<open>splitWhile\<close>, and one of the loop in \<open>padWhile\<close>.\<close>

definition splitNext :: "clause \<Rightarrow> tstate \<Rightarrow> clause \<times> tstate" where
  "splitNext r st =
     (let hv = fst (freshVar 120 st);
          nc = [r ! 0, r ! 1, \<lparr>variable = hv, negated = False\<rparr>]
      in (\<lparr>variable = hv, negated = True\<rparr> # drop 2 r,
          pushStep (ascii ''Created: '' @ formulaToString [nc] @ ascii '' with helper '' @ hv)
            (pushClause nc (snd (freshVar 120 st)))))"

definition padNext :: "clause \<Rightarrow> tstate \<Rightarrow> clause \<times> tstate" where
  "padNext padded st =
     (let padVar = fst (freshVar 112 st)
      in (padded @ [\<lparr>variable = padVar, negated = False\<rparr>],
          pushStep (ascii ''Added padding variable '' @ padVar) (snd (freshVar 112 st))))"

text \<open>Reading a decimal rendering back, to show that \<open>show_nat\<close> is injective.\<close>

definition read_nat :: "jsstring \<Rightarrow> nat" where
  "read_nat s = foldl (\<lambda>acc c. 10 * acc + (c - 48)) 0 s"

text \<open>
  The invariant of the counter: the names handed out so far are pairwise distinct, and
  each is one of the letters p, x, y, z followed by the rendering of a counter value
  that is at least 1 and below the current one.
\<close>

definition freshInv :: "tstate \<Rightarrow> bool" where
  "freshInv st \<longleftrightarrow>
     distinct (t_fresh st) \<and>
     (\<forall>v\<in>set (t_fresh st). \<exists>c k. c \<in> {112, 120, 121, 122} \<and> 1 \<le> k \<and>
        k < t_helperVarCount st \<and> v = c # show_nat k) \<and>
     1 \<le> t_helperVarCount st"

text \<open>The variable names that occur in a formula.\<close>

definition inputVars :: "CNFFormula \<Rightarrow> jsstring set" where
  "inputVars f = (\<Union>c\<in>set f. variable ` set c)"

text \<open>A name of the shape the counter produces: p, x, y or z, then decimal digits.\<close>

definition isHelperName :: "jsstring \<Rightarrow> bool" where
  "isHelperName v \<longleftrightarrow>
     (case v of [] \<Rightarrow> False
      | c # ds \<Rightarrow> c \<in> {112, 120, 121, 122} \<and> ds \<noteq> [] \<and> list_all (\<lambda>d. 48 \<le> d \<and> d \<le> 57) ds)"

text \<open>
  What the padding-only strategy makes of a clause \<open>c\<close>: a clause \<open>d\<close> of three
  literals, the first three of \<open>c\<close> when \<open>c\<close> is longer, and \<open>c\<close> followed by
  padding otherwise.
\<close>

definition paddedFrom :: "clause \<Rightarrow> clause \<Rightarrow> bool" where
  "paddedFrom c d \<longleftrightarrow>
     length d = 3 \<and> (if length c > 3 then d = take 3 c else take (length c) d = c)"

text \<open>Example inputs.\<close>

definition lit :: "jsstring \<Rightarrow> literal" where
  "lit v = \<lparr>variable = v, negated = False\<rparr>"

definition nlit :: "jsstring \<Rightarrow> literal" where
  "nlit v = \<lparr>variable = v, negated = True\<rparr>"

text \<open>\<^verbatim>\<open>(A | B) & (~C | D | E | F)\<close>, the formula of the spec's scenario A.\<close>

definition formula_A :: CNFFormula where
  "formula_A = [[lit [65], lit [66]], [nlit [67], lit [68], lit [69], lit [70]]]"

text \<open>\<^verbatim>\<open>(A) & (B | C) & (a | b | c | d)\<close>.\<close>

definition formula_B :: CNFFormula where
  "formula_B = [[lit [65]], [lit [66], lit [67]], [lit [97], lit [98], lit [99], lit [100]]]"

text \<open>\<^verbatim>\<open>(x1 | B | C | D)\<close>: the user's variable is called \<^verbatim>\<open>x1\<close>.\<close>

definition formula_x1 :: CNFFormula where
  "formula_x1 = [[lit [120, 49], lit [66], lit [67], lit [68]]]"

subsection \<open>The splitting strategy in the specification's words\<close>

text \<open>A helper name: a letter followed by the decimal rendering of a counter value.\<close>

definition helperName :: "jschar \<Rightarrow> nat \<Rightarrow> jsstring" where
  "helperName letter k = letter # show_nat k"

text \<open>
  Chain-splitting one clause, with helpers numbered from \<open>k\<close>: while more than three
  literals remain, the first two remaining literals and a positive helper form a clause of
  three, and the negated helper takes their place in front of the rest; what remains at the
  end is the last clause. A clause of at most three literals is left as it is.
\<close>

fun specChain :: "nat \<Rightarrow> clause \<Rightarrow> clause list" where
  "specChain k (a # b # c # d # rest) =
     [a, b, lit (helperName 120 k)] #
     specChain (Suc k) (nlit (helperName 120 k) # c # d # rest)"
| "specChain k remaining = [remaining]"

text \<open>
  The first pass over a formula: the clauses are chain-split in order, and a clause of
  \<open>n > 3\<close> literals uses up \<open>n - 3\<close> counter values.
\<close>

fun specSplit :: "nat \<Rightarrow> CNFFormula \<Rightarrow> CNFFormula" where
  "specSplit k [] = []"
| "specSplit k (c # cs) = specChain k c @ specSplit (k + (length c - 3)) cs"

definition numHelpers :: "CNFFormula \<Rightarrow> nat" where
  "numHelpers f = sum_list (map (\<lambda>c. length c - 3) f)"

text \<open>
  The second pass, with the counter at \<open>k\<close>: a clause of one literal gets a variable
  \<open>y\<close> and its negation, a clause of two literals gets one positive variable \<open>z\<close>, each
  named from the next counter value; any other clause is untouched. \<open>specPadNames\<close> lists
  the names this pass introduces.
\<close>

fun specPad :: "nat \<Rightarrow> CNFFormula \<Rightarrow> CNFFormula" where
  "specPad k [] = []"
| "specPad k ([a] # cs) =
     [a, lit (helperName 121 k), nlit (helperName 121 k)] # specPad (Suc k) cs"
| "specPad k ([a, b] # cs) = [a, b, lit (helperName 122 k)] # specPad (Suc k) cs"
| "specPad k (c # cs) = c # specPad k cs"

fun specPadNames :: "nat \<Rightarrow> CNFFormula \<Rightarrow> jsstring list" where
  "specPadNames k [] = []"
| "specPadNames k ([a] # cs) = helperName 121 k # specPadNames (Suc k) cs"
| "specPadNames k ([a, b] # cs) = helperName 122 k # specPadNames (Suc k) cs"
| "specPadNames k (c # cs) = specPadNames k cs"

text \<open>
  The formula the splitting strategy is to return, with the counter starting at 1, and the
  helper and padding names it introduces, in the order of the counter.
\<close>

definition specOutput :: "CNFFormula \<Rightarrow> CNFFormula" where
  "specOutput f = specPad (1 + numHelpers f) (specSplit 1 f)"

definition specNames :: "CNFFormula \<Rightarrow> jsstring list" where
  "specNames f =
     map (helperName 120) [1 ..< 1 + numHelpers f] @
     specPadNames (1 + numHelpers f) (specSplit 1 f)"

text \<open>\<^verbatim>\<open>(A | B | C | D | E | F)\<close>: one clause of six literals.\<close>

definition formula_long :: CNFFormula where
  "formula_long = [[lit [65], lit [66], lit [67], lit [68], lit [69], lit [70]]]"

text \<open>\<^verbatim>\<open>(y1)\<close>: one clause of one literal, whose variable is called \<^verbatim>\<open>y1\<close>.\<close>

definition formula_y1 :: CNFFormula where
  "formula_y1 = [[lit [121, 49]]]"

subsection \<open>Validation\<close>

text \<open>
  The nesting depth of a text: opening minus closing parentheses. A text is balanced when
  no prefix has a negative depth and the whole text has depth zero.
\<close>

definition depthOf :: "jsstring \<Rightarrow> int" where
  "depthOf s = int (length (filter (\<lambda>c. c = c_LP) s)) - int (length (filter (\<lambda>c. c = c_RP) s))"


text \<open>
  The running check of \<open>parenLoop\<close> started at depth \<open>d\<close>: the depth after each
  character is not negative.
\<close>

definition prefixesOk :: "int \<Rightarrow> jsstring \<Rightarrow> bool" where
  "prefixesOk d s \<longleftrightarrow> (\<forall>n. 0 < n \<and> n \<le> length s \<longrightarrow> 0 \<le> d + depthOf (take n s))"




definition text_bare_not :: jsstring where
  "text_bare_not = [c_LP, 65, c_OR, c_NOT, c_RP]"

subsection \<open>Parsing and rendering\<close>

text \<open>
  A variable name of the data model: a non-empty token of letters and digits. A formula is
  well formed when every clause is non-empty and every variable name is such a token.
\<close>

definition isVariableToken :: "jsstring \<Rightarrow> bool" where
  "isVariableToken v \<longleftrightarrow> v \<noteq> [] \<and> list_all is_alnum v"

definition wellFormed :: "CNFFormula \<Rightarrow> bool" where
  "wellFormed f \<longleftrightarrow>
     list_all (\<lambda>c. c \<noteq> [] \<and> list_all (\<lambda>l. isVariableToken (variable l)) c) f"

text \<open>A rendered clause with its whitespace removed.\<close>

definition clauseCompact :: "clause \<Rightarrow> jsstring" where
  "clauseCompact c = [c_LP] @ join [c_OR] (map literalToString c) @ [c_RP]"

subsection \<open>Graph lowering\<close>

text \<open>
  Lowering a formula. The component takes its formula as text, so a formula reaches
  \<^verbatim>\<open>parseFormulaToGraph\<close> rendered by \<^verbatim>\<open>formulaToString\<close>.
\<close>

definition lowerFormula :: "CNFFormula \<Rightarrow> graph" where
  "lowerFormula f = parseFormulaToGraph (formulaToString f)"

text \<open>
  The vertex for the literal at position \<open>li\<close> of clause \<open>ci\<close>, and the vertices of a
  formula: one for each literal occurrence, in clause order and then in literal order.
\<close>

definition vertexOf :: "nat \<Rightarrow> nat \<Rightarrow> literal \<Rightarrow> graphLiteral" where
  "vertexOf ci li l =
     \<lparr>variable = variable l, negated = negated l, lit_id = literalId ci li,
      clauseIndex = ci, position = positionOf ci li\<rparr>"

definition formulaVertices :: "CNFFormula \<Rightarrow> graphLiteral list" where
  "formulaVertices f =
     concat (map (\<lambda>(ci, c). map (\<lambda>(li, l). vertexOf ci li l) (enumerate 0 c)) (enumerate 0 f))"

text \<open>The clause texts and the literal texts that \<^verbatim>\<open>parseFormulaToGraph\<close> works on.\<close>

definition graphClauses :: "jsstring \<Rightarrow> jsstring list" where
  "graphClauses t = map (\<lambda>c. remove_parens (trim c)) (split_on c_AND t)"

definition litsOf :: "jsstring \<Rightarrow> jsstring list" where
  "litsOf cl = map trim (split_on c_OR cl)"

text \<open>The body of the inner loop of \<open>generateEdges\<close>.\<close>

definition edgeBetween :: "graphLiteral \<Rightarrow> graphLiteral \<Rightarrow> edge list" where
  "edgeBetween lit1 lit2 =
     (if clauseIndex lit1 \<noteq> clauseIndex lit2 then
        (if \<not> isContradictory lit1 lit2
         then [\<lparr>edge_from = lit_id lit1, edge_to = lit_id lit2\<rparr>] else [])
      else [])"

subsection \<open>Clique search\<close>

text \<open>The test of the innermost loop, and the group of one clause index.\<close>

definition tripleOk :: "edge list \<Rightarrow> graphLiteral \<Rightarrow> graphLiteral \<Rightarrow> graphLiteral \<Rightarrow> bool" where
  "tripleOk es l1 l2 l3 \<longleftrightarrow>
     hasEdge es (lit_id l1) (lit_id l2) \<and> hasEdge es (lit_id l1) (lit_id l3) \<and>
     hasEdge es (lit_id l2) (lit_id l3)"

definition clauseGroup :: "graph \<Rightarrow> nat \<Rightarrow> graphLiteral list" where
  "clauseGroup g k = filter (\<lambda>l. clauseIndex l = k) (literals g)"

text \<open>
  The specification's witness: exactly one vertex for each clause of the graph, in clause
  order, every two of them joined by an edge. The clauses of a graph are the clause indices
  that occur among its vertices.
\<close>

definition numClauses :: "graph \<Rightarrow> nat" where
  "numClauses g = length (remdups (map clauseIndex (literals g)))"

definition cliqueWitness :: "graph \<Rightarrow> jsstring list \<Rightarrow> bool" where
  "cliqueWitness g w \<longleftrightarrow>
     length w = numClauses g \<and>
     (\<forall>i<length w. \<exists>v\<in>set (literals g). lit_id v = w ! i \<and> clauseIndex v = i) \<and>
     (\<forall>i<length w. \<forall>j<length w. i \<noteq> j \<longrightarrow> hasEdge (edges g) (w ! i) (w ! j))"

text \<open>
  \<^verbatim>\<open>(A | B | X) & (~C | D | Y) & (~Y | E | F)\<close>, the formula of the spec's scenario C, and a
  formula of four clauses, \<^verbatim>\<open>(A | B | C) & (D | E | F) & (G | H | I) & (J | K | L)\<close>.
\<close>

definition formula_C :: CNFFormula where
  "formula_C = [[lit [65], lit [66], lit [88]], [nlit [67], lit [68], lit [89]],
                [nlit [89], lit [69], lit [70]]]"

definition formula_D :: CNFFormula where
  "formula_D = [[lit [65], lit [66], lit [67]], [lit [68], lit [69], lit [70]],
                [lit [71], lit [72], lit [73]], [lit [74], lit [75], lit [76]]]"

text \<open>\<^verbatim>\<open>A & ~A & B\<close>: three clauses of one literal, the first two contradictory.\<close>

definition text_unsat :: jsstring where
  "text_unsat = [65, c_AND, c_NOT, 65, c_AND, 66]"

section \<open>The decimal rendering\<close>

lemma show_nat_small: "n < 10 \<Longrightarrow> show_nat n = [48 + n]"
  by (subst show_nat.simps) simp

lemma show_nat_nonempty: "show_nat n \<noteq> []"
  by (subst show_nat.simps) simp

lemma show_nat_digits: "\<forall>d\<in>set (show_nat n). 48 \<le> d \<and> d \<le> 57"
proof (induction n rule: show_nat.induct)
  case (1 n)
  show ?case
  proof (cases "n < 10")
    case True
    then show ?thesis by (subst show_nat.simps) simp
  next
    case False
    with 1 have "\<forall>d\<in>set (show_nat (n div 10)). 48 \<le> d \<and> d \<le> 57" by simp
    moreover have "n mod 10 \<le> 9" by simp
    ultimately show ?thesis using False
      by (subst show_nat.simps) auto
  qed
qed

lemma read_show_nat: "read_nat (show_nat n) = n"
proof (induction n rule: show_nat.induct)
  case (1 n)
  show ?case
  proof (cases "n < 10")
    case True
    then show ?thesis by (subst show_nat.simps) (simp add: read_nat_def)
  next
    case False
    with 1 have "read_nat (show_nat (n div 10)) = n div 10" by simp
    with False show ?thesis
      by (subst show_nat.simps) (simp add: read_nat_def)
  qed
qed

lemma show_nat_inj: "show_nat a = show_nat b \<Longrightarrow> a = b"
  by (metis read_show_nat)

section \<open>The transformation: what each step does to the result\<close>

lemma freshVar_result [simp]: "t_result (snd (freshVar c st)) = t_result st"
  by (simp add: freshVar_def Let_def)

lemma pushStep_result [simp]: "t_result (pushStep s st) = t_result st"
  by (simp add: pushStep_def)

lemma pushClause_result [simp]: "t_result (pushClause c st) = t_result st @ [c]"
  by (simp add: pushClause_def)

lemma splitWhile_stop: "length r \<le> 3 \<Longrightarrow> splitWhile r st = (r, st)"
  by (subst splitWhile.simps) simp

lemma splitWhile_go:
  "length r > 3 \<Longrightarrow> splitWhile r st = splitWhile (fst (splitNext r st)) (snd (splitNext r st))"
  by (subst splitWhile.simps) (simp add: splitNext_def Let_def split: prod.split)

lemma padWhile_stop: "length r \<ge> 3 \<Longrightarrow> padWhile r st = (r, st)"
  by (subst padWhile.simps) simp

lemma padWhile_go:
  "length r < 3 \<Longrightarrow> padWhile r st = padWhile (fst (padNext r st)) (snd (padNext r st))"
  by (subst padWhile.simps) (simp add: padNext_def Let_def case_prod_beta)

text \<open>The equations that evaluate the transformation on a concrete formula.\<close>

lemmas transform_eval = freshNames_def transformTo3CNF_def transformRun_def splitClause_def
  padClause_def paddingClause_def initState_def splitWhile_go splitWhile_stop splitNext_def
  padWhile_go padWhile_stop padNext_def freshVar_def pushStep_def pushClause_def Let_def
  show_nat_small lit_def nlit_def

lemma splitNext_length: "length r > 3 \<Longrightarrow> length (fst (splitNext r st)) = length r - 1"
  by (simp add: splitNext_def Let_def)

lemma splitNext_result:
  "\<exists>c. length c = 3 \<and> t_result (snd (splitNext r st)) = t_result st @ [c]"
  by (simp add: splitNext_def Let_def)

text \<open>The loop stops with three literals left when it starts with more than three.\<close>

lemma splitWhile_remaining: "length (fst (splitWhile r st)) = min 3 (length r)"
proof (induction "length r" arbitrary: r st rule: less_induct)
  case less
  show ?case
  proof (cases "length r > 3")
    case True
    then have "length (fst (splitNext r st)) < length r"
      by (simp add: splitNext_length)
    from less[OF this] True show ?thesis
      by (simp add: splitWhile_go splitNext_length)
  next
    case False
    then show ?thesis by (simp add: splitWhile_stop)
  qed
qed

text \<open>Every clause the loop emits has three literals.\<close>

lemma splitWhile_result:
  "\<exists>new. t_result (snd (splitWhile r st)) = t_result st @ new \<and> (\<forall>c\<in>set new. length c = 3)"
proof (induction "length r" arbitrary: r st rule: less_induct)
  case less
  show ?case
  proof (cases "length r > 3")
    case True
    then have "length (fst (splitNext r st)) < length r"
      by (simp add: splitNext_length)
    from less[OF this, of "snd (splitNext r st)"]
    obtain new where new:
      "t_result (snd (splitWhile r st)) = t_result (snd (splitNext r st)) @ new"
      "\<forall>c\<in>set new. length c = 3"
      using True by (auto simp: splitWhile_go)
    obtain c where c: "length c = 3" "t_result (snd (splitNext r st)) = t_result st @ [c]"
      using splitNext_result by blast
    from new c have "t_result (snd (splitWhile r st)) = t_result st @ (c # new) \<and>
        (\<forall>c\<in>set (c # new). length c = 3)"
      by simp
    then show ?thesis by blast
  next
    case False
    then show ?thesis by (simp add: splitWhile_stop)
  qed
qed

lemma splitClause_result:
  "\<exists>new. t_result (splitClause cl st) = t_result st @ new \<and>
     (\<forall>c\<in>set new. length c = 3 \<or> (c = cl \<and> length cl < 3))"
proof (cases "length cl \<le> 3")
  case True
  then have "t_result (splitClause cl st) = t_result st @ [cl]"
    by (simp add: splitClause_def Let_def)
  moreover have "\<forall>c\<in>set [cl]. length c = 3 \<or> (c = cl \<and> length cl < 3)"
    using True by auto
  ultimately show ?thesis by blast
next
  case False
  define st1 where "st1 = pushStep (ascii ''Clause '' @ formulaToString [cl] @ ascii '' has '' @
                             show_nat (length cl) @ ascii '' literals - splitting...'') st"
  obtain new where new: "t_result (snd (splitWhile cl st1)) = t_result st1 @ new"
    "\<forall>c\<in>set new. length c = 3"
    using splitWhile_result by blast
  have len: "length (fst (splitWhile cl st1)) = 3"
    using False by (simp add: splitWhile_remaining)
  have "t_result (splitClause cl st) = t_result st @ (new @ [fst (splitWhile cl st1)])"
    using False len new(1)
    by (auto simp add: splitClause_def Let_def st1_def case_prod_beta)
  moreover have "\<forall>c\<in>set (new @ [fst (splitWhile cl st1)]).
      length c = 3 \<or> (c = cl \<and> length cl < 3)"
    using new(2) len by auto
  ultimately show ?thesis by blast
qed

text \<open>After the first pass, a clause has three literals or is a short clause of the input.\<close>

lemma splitFor_result:
  "\<exists>new. t_result (splitFor f st) = t_result st @ new \<and>
     (\<forall>c\<in>set new. length c = 3 \<or> (c \<in> set f \<and> length c < 3))"
proof (induction f arbitrary: st)
  case Nil
  then show ?case by simp
next
  case (Cons cl f)
  obtain n1 where n1: "t_result (splitClause cl st) = t_result st @ n1"
    "\<forall>c\<in>set n1. length c = 3 \<or> (c = cl \<and> length cl < 3)"
    using splitClause_result by blast
  obtain n2 where n2:
    "t_result (splitFor f (splitClause cl st)) = t_result (splitClause cl st) @ n2"
    "\<forall>c\<in>set n2. length c = 3 \<or> (c \<in> set f \<and> length c < 3)"
    using Cons.IH by blast
  have "t_result (splitFor (cl # f) st) = t_result st @ (n1 @ n2)"
    using n1(1) n2(1) by simp
  moreover have "\<forall>c\<in>set (n1 @ n2). length c = 3 \<or> (c \<in> set (cl # f) \<and> length c < 3)"
    using n1(2) n2(2) by auto
  ultimately show ?case by blast
qed

lemma padClause_one:
  "length cl = 1 \<Longrightarrow> fst (padClause cl st) =
     cl @ [\<lparr>variable = 121 # show_nat (t_helperVarCount st), negated = False\<rparr>,
           \<lparr>variable = 121 # show_nat (t_helperVarCount st), negated = True\<rparr>]"
  by (simp add: padClause_def freshVar_def Let_def)

lemma padClause_two:
  "length cl = 2 \<Longrightarrow> fst (padClause cl st) =
     cl @ [\<lparr>variable = 122 # show_nat (t_helperVarCount st), negated = False\<rparr>]"
  by (simp add: padClause_def freshVar_def Let_def)

lemma padClause_other:
  "length cl \<noteq> 1 \<Longrightarrow> length cl \<noteq> 2 \<Longrightarrow> padClause cl st = (cl, st)"
  by (simp add: padClause_def)

lemma padClause_length:
  "length (fst (padClause cl st)) = (if length cl = 1 \<or> length cl = 2 then 3 else length cl)"
  by (simp add: padClause_def Let_def split: prod.split)

lemma padMap_lengths:
  "map length (fst (padMap cs st)) =
     map (\<lambda>c. if length c = 1 \<or> length c = 2 then 3 else length c) cs"
proof (induction cs arbitrary: st)
  case Nil
  then show ?case by simp
next
  case (Cons c cs)
  have "fst (padMap (c # cs) st) = fst (padClause c st) # fst (padMap cs (snd (padClause c st)))"
    by (simp add: Let_def split: prod.split)
  then show ?case using Cons.IH padClause_length by simp
qed

lemma transform_split_formula:
  "m = Tseitin \<or> m = Split \<Longrightarrow>
   formula (transformTo3CNF f m) =
     fst (padMap
       (t_result (splitFor f
          (pushStep (ascii ''Identifying clauses that need splitting...'') initState)))
       (pushStep (ascii ''Padding short clauses to exactly 3 literals...'')
          (splitFor f
             (pushStep (ascii ''Identifying clauses that need splitting...'') initState))))"
  by (auto simp add: transformTo3CNF_def transformRun_def Let_def pushStep_def
      split: prod.split)

lemma formula_A_split:
  "formula (transformTo3CNF formula_A Split) =
     [[lit [65], lit [66], lit [122, 50]],
      [nlit [67], lit [68], lit [120, 49]],
      [nlit [120, 49], lit [69], lit [70]]]"
  by (simp add: formula_A_def transform_eval)

section \<open>The splitting strategy\<close>

text \<open>
  C9. The gadget-construction strategy (\<^verbatim>\<open>'tseitin'\<close>) and the splitting strategy
  (\<^verbatim>\<open>'split'\<close>) take the same branch of \<^verbatim>\<open>transformTo3CNF\<close>: for every formula
  they return equal results, formula and trace alike.
\<close>

theorem tseitin_equals_split:
  "transformTo3CNF f Tseitin = transformTo3CNF f Split"
  by (simp add: transformTo3CNF_def transformRun_def)

section \<open>The padding-only strategy\<close>

lemma padNext_fst:
  "fst (padNext r st) = r @ [\<lparr>variable = fst (freshVar 112 st), negated = False\<rparr>]"
  by (simp add: padNext_def Let_def)

lemma padNext_result [simp]: "t_result (snd (padNext r st)) = t_result st"
  by (simp add: padNext_def Let_def)

lemma padWhile_result: "t_result (snd (padWhile r st)) = t_result st"
proof (induction "3 - length r" arbitrary: r st rule: less_induct)
  case less
  show ?case
  proof (cases "length r < 3")
    case True
    then have "3 - length (fst (padNext r st)) < 3 - length r" by (simp add: padNext_fst)
    from less[OF this] True show ?thesis
      by (simp add: padWhile_go)
  qed (simp add: padWhile_stop)
qed

lemma padWhile_length: "length (fst (padWhile r st)) = max 3 (length r)"
proof (induction "3 - length r" arbitrary: r st rule: less_induct)
  case less
  show ?case
  proof (cases "length r < 3")
    case True
    then have "3 - length (fst (padNext r st)) < 3 - length r" by (simp add: padNext_fst)
    from less[OF this] True show ?thesis
      by (simp add: padWhile_go padNext_fst)
  qed (simp add: padWhile_stop)
qed

text \<open>The loop only appends: the clause it started from is a prefix of what it returns.\<close>

lemma padWhile_prefix: "take (length r) (fst (padWhile r st)) = r"
proof (induction "3 - length r" arbitrary: r st rule: less_induct)
  case less
  show ?case
  proof (cases "length r < 3")
    case True
    then have lt: "3 - length (fst (padNext r st)) < 3 - length r" by (simp add: padNext_fst)
    have "take (length r) (fst (padWhile r st)) =
          take (length r) (take (length (fst (padNext r st)))
            (fst (padWhile (fst (padNext r st)) (snd (padNext r st)))))"
      using True by (simp add: padWhile_go padNext_fst min_def)
    also have "\<dots> = take (length r) (fst (padNext r st))"
      using less[OF lt] by simp
    also have "\<dots> = r" by (simp add: padNext_fst)
    finally show ?thesis .
  qed (simp add: padWhile_stop)
qed

lemma paddingClause_result:
  "\<exists>d. t_result (paddingClause cl st) = t_result st @ [d] \<and> paddedFrom cl d"
proof -
  consider "length cl = 3" | "length cl < 3" | "length cl > 3" by linarith
  then show ?thesis
  proof cases
    case 1
    then show ?thesis by (simp add: paddingClause_def paddedFrom_def)
  next
    case 2
    then show ?thesis
      by (simp add: paddingClause_def paddedFrom_def Let_def case_prod_beta
          padWhile_result padWhile_length padWhile_prefix)
  next
    case 3
    then show ?thesis by (simp add: paddingClause_def paddedFrom_def)
  qed
qed

lemma paddingFor_result:
  "\<exists>new. t_result (paddingFor f st) = t_result st @ new \<and> list_all2 paddedFrom f new"
proof (induction f arbitrary: st)
  case Nil
  then show ?case by simp
next
  case (Cons cl f)
  obtain d where d: "t_result (paddingClause cl st) = t_result st @ [d]" "paddedFrom cl d"
    using paddingClause_result by blast
  obtain new where new:
    "t_result (paddingFor f (paddingClause cl st)) = t_result (paddingClause cl st) @ new"
    "list_all2 paddedFrom f new"
    using Cons.IH by blast
  have "t_result (paddingFor (cl # f) st) = t_result st @ (d # new)"
    using d(1) new(1) by simp
  moreover have "list_all2 paddedFrom (cl # f) (d # new)"
    using d(2) new(2) by simp
  ultimately show ?case by blast
qed

text \<open>
  C5. Under \<^verbatim>\<open>'padding'\<close> the returned formula has one clause for each clause of the
  input, in order, and each has exactly three literals. For an input clause of more than
  three literals it is the first three literals of that clause, in order. For an input
  clause of at most three literals it starts with the whole input clause, so no literal is
  dropped.
\<close>

theorem padding_strategy_clauses:
  "list_all2
     (\<lambda>c d. length d = 3 \<and> (if length c > 3 then d = take 3 c else take (length c) d = c))
     f (formula (transformTo3CNF f Padding))"
proof -
  obtain new where new:
    "t_result (paddingFor f (pushStep (ascii ''Using clause padding method...'') initState)) =
       t_result (pushStep (ascii ''Using clause padding method...'') initState) @ new"
    "list_all2 paddedFrom f new"
    using paddingFor_result by blast
  have "formula (transformTo3CNF f Padding) = new"
    using new(1) by (simp add: transformTo3CNF_def transformRun_def initState_def)
  with new(2) show ?thesis
    by (simp add: paddedFrom_def[abs_def])
qed

theorem padding_strategy_clauses_witness:
  "formula (transformTo3CNF formula_B Padding) =
     [[lit [65], lit [112, 49], lit [112, 50]], [lit [66], lit [67], lit [112, 51]],
      [lit [97], lit [98], lit [99]]] \<and>
   list_all2
     (\<lambda>c d. length d = 3 \<and> (if length c > 3 then d = take 3 c else take (length c) d = c))
     formula_B (formula (transformTo3CNF formula_B Padding))"
proof -
  have "formula (transformTo3CNF formula_B Padding) =
     [[lit [65], lit [112, 49], lit [112, 50]], [lit [66], lit [67], lit [112, 51]],
      [lit [97], lit [98], lit [99]]]"
    by (simp add: formula_B_def transform_eval)
  then show ?thesis using padding_strategy_clauses[of formula_B] by simp
qed

section \<open>Fresh names\<close>

lemma freshInv_init: "freshInv initState"
  by (simp add: freshInv_def initState_def)

lemma freshInv_pushStep [simp]: "freshInv (pushStep s st) = freshInv st"
  by (simp add: freshInv_def pushStep_def)

lemma freshInv_pushClause [simp]: "freshInv (pushClause c st) = freshInv st"
  by (simp add: freshInv_def pushClause_def)

lemma freshInv_result_update [simp]: "freshInv (st\<lparr>t_result := r\<rparr>) = freshInv st"
  by (simp add: freshInv_def)

text \<open>
  A new name is built from the current counter value, every earlier one from a smaller
  value, and the rendering is injective: the new name differs from the earlier ones
  whatever the letters are.
\<close>

lemma freshInv_freshVar:
  assumes "freshInv st" and "c \<in> {112, 120, 121, 122}"
  shows "freshInv (snd (freshVar c st))"
proof -
  let ?n = "t_helperVarCount st"
  have new: "c # show_nat ?n \<notin> set (t_fresh st)"
  proof
    assume "c # show_nat ?n \<in> set (t_fresh st)"
    with assms(1) obtain c' k where "k < ?n" "c # show_nat ?n = c' # show_nat k"
      unfolding freshInv_def by blast
    then show False using show_nat_inj by auto
  qed
  have old: "\<forall>v\<in>set (t_fresh st). \<exists>c k. c \<in> {112, 120, 121, 122} \<and> 1 \<le> k \<and>
        k < Suc ?n \<and> v = c # show_nat k"
    using assms(1) unfolding freshInv_def by (meson less_Suc_eq)
  have this_one: "\<exists>c' k. c' \<in> {112, 120, 121, 122} \<and> 1 \<le> k \<and> k < Suc ?n \<and>
        c # show_nat ?n = c' # show_nat k"
    using assms unfolding freshInv_def by blast
  show ?thesis
    using assms(1) new old this_one
    by (simp add: freshInv_def freshVar_def Let_def)
qed

lemma freshInv_splitNext: "freshInv st \<Longrightarrow> freshInv (snd (splitNext r st))"
  by (simp add: splitNext_def Let_def freshInv_freshVar)

lemma freshInv_splitWhile: "freshInv st \<Longrightarrow> freshInv (snd (splitWhile r st))"
proof (induction "length r" arbitrary: r st rule: less_induct)
  case less
  show ?case
  proof (cases "length r > 3")
    case True
    then have "length (fst (splitNext r st)) < length r"
      by (simp add: splitNext_length)
    from less(1)[OF this freshInv_splitNext[OF less(2)]] True show ?thesis
      by (simp add: splitWhile_go)
  next
    case False
    with less(2) show ?thesis by (simp add: splitWhile_stop)
  qed
qed

lemma freshInv_splitClause: "freshInv st \<Longrightarrow> freshInv (splitClause cl st)"
  by (simp add: splitClause_def Let_def case_prod_beta freshInv_splitWhile)

lemma freshInv_splitFor: "freshInv st \<Longrightarrow> freshInv (splitFor f st)"
  by (induction f arbitrary: st) (simp_all add: freshInv_splitClause)

lemma freshInv_padClause: "freshInv st \<Longrightarrow> freshInv (snd (padClause cl st))"
  by (simp add: padClause_def Let_def case_prod_beta freshInv_freshVar)

lemma freshInv_padMap: "freshInv st \<Longrightarrow> freshInv (snd (padMap cs st))"
  by (induction cs arbitrary: st) (simp_all add: Let_def case_prod_beta freshInv_padClause)

lemma freshInv_padNext: "freshInv st \<Longrightarrow> freshInv (snd (padNext r st))"
  by (simp add: padNext_def Let_def freshInv_freshVar)

lemma freshInv_padWhile: "freshInv st \<Longrightarrow> freshInv (snd (padWhile r st))"
proof (induction "3 - length r" arbitrary: r st rule: less_induct)
  case less
  show ?case
  proof (cases "length r < 3")
    case True
    then have "3 - length (fst (padNext r st)) < 3 - length r" by (simp add: padNext_fst)
    from less(1)[OF this freshInv_padNext[OF less(2)]] True show ?thesis
      by (simp add: padWhile_go)
  next
    case False
    with less(2) show ?thesis by (simp add: padWhile_stop)
  qed
qed

lemma freshInv_paddingClause: "freshInv st \<Longrightarrow> freshInv (paddingClause cl st)"
  by (simp add: paddingClause_def Let_def case_prod_beta freshInv_padWhile)

lemma freshInv_paddingFor: "freshInv st \<Longrightarrow> freshInv (paddingFor f st)"
  by (induction f arbitrary: st) (simp_all add: freshInv_paddingClause)

lemma freshInv_transformRun: "freshInv (transformRun f m)"
  by (simp add: transformRun_def Let_def case_prod_beta freshInv_init freshInv_splitFor
      freshInv_padMap freshInv_paddingFor)

lemma isHelperName_fresh: "c \<in> {112, 120, 121, 122} \<Longrightarrow> isHelperName (c # show_nat k)"
  using show_nat_digits[of k] show_nat_nonempty[of k]
  by (simp add: isHelperName_def list_all_iff)

text \<open>
  C6, as the claim states it, fails: the names come from the counter alone and the
  variables of the input are never looked at. Splitting \<^verbatim>\<open>(x1 | B | C | D)\<close>
  introduces the helper \<^verbatim>\<open>x1\<close>, the name of a variable of the input.
\<close>

theorem fresh_names_clash_counterexample:
  "\<not> (set (freshNames formula_x1 Split) \<inter> inputVars formula_x1 = {} \<and>
      distinct (freshNames formula_x1 Split))"
proof -
  have "freshNames formula_x1 Split = [[120, 49]]"
    by (simp add: formula_x1_def transform_eval)
  moreover have "[120, 49] \<in> inputVars formula_x1"
    by (simp add: inputVars_def formula_x1_def lit_def)
  ultimately show ?thesis by simp
qed

text \<open>
  C6, amended. For every formula and every strategy, the names introduced from the
  counter during one call are pairwise distinct, and each is one of the letters p, x, y, z
  followed by decimal digits. They are distinct from every variable name of the input
  whenever no variable name of the input has that shape.
\<close>

theorem fresh_names_distinct:
  "distinct (freshNames f m) \<and>
   (\<forall>v\<in>set (freshNames f m). isHelperName v) \<and>
   ((\<forall>v\<in>inputVars f. \<not> isHelperName v) \<longrightarrow> set (freshNames f m) \<inter> inputVars f = {})"
proof -
  have inv: "freshInv (transformRun f m)" by (rule freshInv_transformRun)
  have d: "distinct (freshNames f m)"
    using inv by (simp add: freshInv_def freshNames_def)
  have h: "isHelperName v" if "v \<in> set (freshNames f m)" for v
  proof -
    from that inv obtain c k where "c \<in> {112, 120, 121, 122}" "v = c # show_nat k"
      unfolding freshInv_def freshNames_def by blast
    then show ?thesis using isHelperName_fresh by simp
  qed
  have "set (freshNames f m) \<inter> inputVars f = {}" if "\<forall>v\<in>inputVars f. \<not> isHelperName v"
  proof (rule ccontr)
    assume "set (freshNames f m) \<inter> inputVars f \<noteq> {}"
    then obtain v where "v \<in> set (freshNames f m)" "v \<in> inputVars f" by blast
    with h that show False by blast
  qed
  with d h show ?thesis by simp
qed

theorem fresh_names_distinct_witness:
  "freshNames formula_A Split = [[120, 49], [122, 50]] \<and>
   distinct (freshNames formula_A Split) \<and>
   list_all isHelperName (freshNames formula_A Split) \<and>
   list_all (list_all (\<lambda>l. \<not> isHelperName (variable l))) formula_A \<and>
   set (freshNames formula_A Split) \<inter> inputVars formula_A = {}"
proof -
  have h: "\<forall>v\<in>inputVars formula_A. \<not> isHelperName v"
    by (simp add: inputVars_def isHelperName_def formula_A_def lit_def nlit_def)
  have h': "list_all (list_all (\<lambda>l. \<not> isHelperName (variable l))) formula_A"
    by (simp add: isHelperName_def formula_A_def lit_def nlit_def)
  have e: "freshNames formula_A Split = [[120, 49], [122, 50]]"
    by (simp add: formula_A_def transform_eval)
  show ?thesis
    using fresh_names_distinct[of formula_A Split] h h' e by (simp add: list_all_iff)
qed

section \<open>The splitting strategy: the returned formula\<close>

text \<open>
  Each loop of the splitting branch is compared with its counterpart in the
  specification's words: what it appends to the result, where it leaves the counter, and
  which names it takes from the counter.
\<close>

lemma specChain_short: "length r \<le> 3 \<Longrightarrow> specChain k r = [r]"
  by (induction k r rule: specChain.induct) simp_all

lemma specChain_long:
  "length r > 3 \<Longrightarrow>
   specChain k r = [r ! 0, r ! 1, lit (helperName 120 k)] #
     specChain (Suc k) (nlit (helperName 120 k) # drop 2 r)"
  by (induction k r rule: specChain.induct) simp_all

lemma specPad_one:
  "length c = 1 \<Longrightarrow> specPad k (c # cs) =
     (c @ [lit (helperName 121 k), nlit (helperName 121 k)]) # specPad (Suc k) cs"
  "length c = 1 \<Longrightarrow> specPadNames k (c # cs) = helperName 121 k # specPadNames (Suc k) cs"
  by (cases c; simp)+

lemma specPad_two:
  "length c = 2 \<Longrightarrow> specPad k (c # cs) =
     (c @ [lit (helperName 122 k)]) # specPad (Suc k) cs"
  "length c = 2 \<Longrightarrow> specPadNames k (c # cs) = helperName 122 k # specPadNames (Suc k) cs"
  by (cases c; cases "tl c"; simp)+

lemma specPad_other:
  "length c \<noteq> 1 \<Longrightarrow> length c \<noteq> 2 \<Longrightarrow> specPad k (c # cs) = c # specPad k cs"
  "length c \<noteq> 1 \<Longrightarrow> length c \<noteq> 2 \<Longrightarrow> specPadNames k (c # cs) = specPadNames k cs"
  by (cases c; cases "tl c"; cases "tl (tl c)"; simp)+

lemma pushStep_count [simp]: "t_helperVarCount (pushStep s st) = t_helperVarCount st"
  by (simp add: pushStep_def)

lemma pushStep_fresh [simp]: "t_fresh (pushStep s st) = t_fresh st"
  by (simp add: pushStep_def)

lemma pushClause_count [simp]: "t_helperVarCount (pushClause c st) = t_helperVarCount st"
  by (simp add: pushClause_def)

lemma pushClause_fresh [simp]: "t_fresh (pushClause c st) = t_fresh st"
  by (simp add: pushClause_def)

lemma freshVar_name: "fst (freshVar letter st) = helperName letter (t_helperVarCount st)"
  by (simp add: freshVar_def helperName_def Let_def)

lemma freshVar_count [simp]:
  "t_helperVarCount (snd (freshVar letter st)) = Suc (t_helperVarCount st)"
  by (simp add: freshVar_def Let_def)

lemma freshVar_fresh [simp]:
  "t_fresh (snd (freshVar letter st)) = t_fresh st @ [helperName letter (t_helperVarCount st)]"
  by (simp add: freshVar_def helperName_def Let_def)

lemma splitNext_spec:
  "fst (splitNext r st) = nlit (helperName 120 (t_helperVarCount st)) # drop 2 r"
  "t_result (snd (splitNext r st)) =
     t_result st @ [[r ! 0, r ! 1, lit (helperName 120 (t_helperVarCount st))]]"
  "t_helperVarCount (snd (splitNext r st)) = Suc (t_helperVarCount st)"
  "t_fresh (snd (splitNext r st)) = t_fresh st @ [helperName 120 (t_helperVarCount st)]"
  by (simp_all add: splitNext_def Let_def freshVar_name lit_def nlit_def)

lemma upt_shift: "0 < n \<Longrightarrow> [k ..< k + n] = k # [Suc k ..< Suc k + (n - 1)]"
  by (cases n) (simp_all add: upt_conv_Cons)

lemma splitWhile_spec:
  "t_result (snd (splitWhile r st)) @ [fst (splitWhile r st)] =
     t_result st @ specChain (t_helperVarCount st) r \<and>
   t_helperVarCount (snd (splitWhile r st)) = t_helperVarCount st + (length r - 3) \<and>
   t_fresh (snd (splitWhile r st)) =
     t_fresh st @ map (helperName 120)
       [t_helperVarCount st ..< t_helperVarCount st + (length r - 3)]"
proof (induction "length r" arbitrary: r st rule: less_induct)
  case less
  show ?case
  proof (cases "length r > 3")
    case False
    then show ?thesis by (simp add: splitWhile_stop specChain_short)
  next
    case True
    define r1 where "r1 = fst (splitNext r st)"
    define st1 where "st1 = snd (splitNext r st)"
    have len: "length r1 = length r - 1"
      using True by (simp add: r1_def splitNext_length)
    then have "length r1 < length r" using True by simp
    note IH = less[OF this, of st1]
    have go: "splitWhile r st = splitWhile r1 st1"
      using True by (simp add: splitWhile_go r1_def st1_def)
    have c1: "t_helperVarCount st1 = Suc (t_helperVarCount st)"
      by (simp add: st1_def splitNext_spec)
    have n: "length r1 - 3 = length r - 3 - 1" using len by simp
    have pos: "0 < length r - 3" using True by simp
    have chain: "specChain (t_helperVarCount st) r =
        [r ! 0, r ! 1, lit (helperName 120 (t_helperVarCount st))] #
        specChain (Suc (t_helperVarCount st)) r1"
      using specChain_long[OF True] by (simp add: r1_def splitNext_spec)
    have 1: "t_result (snd (splitWhile r st)) @ [fst (splitWhile r st)] =
        t_result st @ specChain (t_helperVarCount st) r"
      using IH by (simp add: go chain c1 st1_def splitNext_spec)
    have 2: "t_helperVarCount (snd (splitWhile r st)) = t_helperVarCount st + (length r - 3)"
      using IH pos by (simp add: go c1 n)
    have 3: "t_fresh (snd (splitWhile r st)) =
        t_fresh st @ map (helperName 120)
          [t_helperVarCount st ..< t_helperVarCount st + (length r - 3)]"
      using IH by (simp add: go c1 n upt_shift[OF pos] st1_def splitNext_spec)
    from 1 2 3 show ?thesis by blast
  qed
qed

lemma splitClause_spec:
  "t_result (splitClause cl st) = t_result st @ specChain (t_helperVarCount st) cl \<and>
   t_helperVarCount (splitClause cl st) = t_helperVarCount st + (length cl - 3) \<and>
   t_fresh (splitClause cl st) =
     t_fresh st @ map (helperName 120)
       [t_helperVarCount st ..< t_helperVarCount st + (length cl - 3)]"
proof (cases "length cl \<le> 3")
  case True
  then show ?thesis by (simp add: splitClause_def Let_def specChain_short)
next
  case False
  define st1 where "st1 = pushStep (ascii ''Clause '' @ formulaToString [cl] @ ascii '' has '' @
                             show_nat (length cl) @ ascii '' literals - splitting...'') st"
  have len: "length (fst (splitWhile cl st1)) = 3"
    using False by (simp add: splitWhile_remaining)
  have sc: "splitClause cl st =
      pushStep (ascii ''Final part: '' @ formulaToString [fst (splitWhile cl st1)])
        (pushClause (fst (splitWhile cl st1)) (snd (splitWhile cl st1)))"
    using False len by (auto simp add: splitClause_def Let_def st1_def case_prod_beta)
  from splitWhile_spec[of cl st1] show ?thesis
    by (simp add: sc st1_def)
qed

lemma upt_add_split: "[k ..< k + a + b] = [k ..< k + a] @ [k + a ..< k + a + b]"
  by (metis le_add1 upt_add_eq_append add.assoc)

lemma splitFor_spec:
  "t_result (splitFor f st) = t_result st @ specSplit (t_helperVarCount st) f \<and>
   t_helperVarCount (splitFor f st) = t_helperVarCount st + numHelpers f \<and>
   t_fresh (splitFor f st) =
     t_fresh st @ map (helperName 120)
       [t_helperVarCount st ..< t_helperVarCount st + numHelpers f]"
proof (induction f arbitrary: st)
  case Nil
  then show ?case by (simp add: numHelpers_def)
next
  case (Cons cl f)
  note S = splitClause_spec[of cl st]
  note IH = Cons.IH[of "splitClause cl st"]
  have nh: "numHelpers (cl # f) = (length cl - 3) + numHelpers f"
    by (simp add: numHelpers_def)
  have 1: "t_result (splitFor (cl # f) st) = t_result st @ specSplit (t_helperVarCount st) (cl # f)"
    using S IH by simp
  have 2: "t_helperVarCount (splitFor (cl # f) st) = t_helperVarCount st + numHelpers (cl # f)"
    using S IH by (simp add: nh)
  have 3: "t_fresh (splitFor (cl # f) st) =
     t_fresh st @ map (helperName 120)
       [t_helperVarCount st ..< t_helperVarCount st + numHelpers (cl # f)]"
    using S IH upt_add_split[of "t_helperVarCount st" "length cl - 3" "numHelpers f"]
    by (simp add: nh add.assoc)
  from 1 2 3 show ?case by blast
qed

lemma padClause_spec:
  "fst (padMap (cl # rest) st) =
     fst (padClause cl st) # fst (padMap rest (snd (padClause cl st)))"
  "snd (padMap (cl # rest) st) = snd (padMap rest (snd (padClause cl st)))"
  by (simp_all add: Let_def case_prod_beta)

lemma padClause_state:
  "length cl = 1 \<Longrightarrow> t_helperVarCount (snd (padClause cl st)) = Suc (t_helperVarCount st) \<and>
     t_fresh (snd (padClause cl st)) = t_fresh st @ [helperName 121 (t_helperVarCount st)]"
  "length cl = 2 \<Longrightarrow> t_helperVarCount (snd (padClause cl st)) = Suc (t_helperVarCount st) \<and>
     t_fresh (snd (padClause cl st)) = t_fresh st @ [helperName 122 (t_helperVarCount st)]"
  by (simp_all add: padClause_def Let_def case_prod_beta)

lemma padMap_spec:
  "fst (padMap cs st) = specPad (t_helperVarCount st) cs \<and>
   t_fresh (snd (padMap cs st)) = t_fresh st @ specPadNames (t_helperVarCount st) cs"
proof (induction cs arbitrary: st)
  case Nil
  then show ?case by simp
next
  case (Cons c cs)
  note IH = Cons.IH[of "snd (padClause c st)"]
  consider "length c = 1" | "length c = 2" | "length c \<noteq> 1 \<and> length c \<noteq> 2" by blast
  then show ?case
  proof cases
    case 1
    from IH padClause_one[OF 1, of st] padClause_state(1)[OF 1, of st] show ?thesis
      by (simp add: padClause_spec specPad_one[OF 1] helperName_def lit_def nlit_def
          del: padMap.simps)
  next
    case 2
    from IH padClause_two[OF 2, of st] padClause_state(2)[OF 2, of st] show ?thesis
      by (simp add: padClause_spec specPad_two[OF 2] helperName_def lit_def
          del: padMap.simps)
  next
    case 3
    then have "padClause c st = (c, st)" by (simp add: padClause_other)
    with IH 3 show ?thesis
      by (simp add: padClause_spec specPad_other del: padMap.simps)
  qed
qed

text \<open>Every variable of the specified output is a variable of the input or an introduced name.\<close>

lemma inputVars_Cons: "inputVars (c # cs) = variable ` set c \<union> inputVars cs"
  by (simp add: inputVars_def)

lemma inputVars_append: "inputVars (xs @ ys) = inputVars xs \<union> inputVars ys"
  by (auto simp: inputVars_def)

lemma specChain_vars:
  "inputVars (specChain k c) \<subseteq>
     variable ` set c \<union> helperName 120 ` {k ..< k + (length c - 3)}"
proof (induction k c rule: specChain.induct)
  case (1 k a b c d rest)
  have "helperName 120 k \<in> helperName 120 ` {k ..< k + (length (a # b # c # d # rest) - 3)}"
    by simp
  moreover have "helperName 120 ` {Suc k ..< Suc k + (length (nlit (helperName 120 k) # c # d # rest) - 3)}
      \<subseteq> helperName 120 ` {k ..< k + (length (a # b # c # d # rest) - 3)}"
    by (intro image_mono) auto
  ultimately show ?case
    using 1 by (auto simp: inputVars_Cons lit_def nlit_def)
qed (simp_all add: inputVars_def)

lemma specSplit_vars:
  "inputVars (specSplit k f) \<subseteq> inputVars f \<union> helperName 120 ` {k ..< k + numHelpers f}"
proof (induction f arbitrary: k)
  case Nil
  then show ?case by (simp add: inputVars_def)
next
  case (Cons c f)
  have nh: "numHelpers (c # f) = (length c - 3) + numHelpers f"
    by (simp add: numHelpers_def)
  have a: "helperName 120 ` {k ..< k + (length c - 3)} \<subseteq> helperName 120 ` {k ..< k + numHelpers (c # f)}"
    by (intro image_mono) (auto simp: nh)
  have b: "helperName 120 ` {k + (length c - 3) ..< k + (length c - 3) + numHelpers f}
      \<subseteq> helperName 120 ` {k ..< k + numHelpers (c # f)}"
    by (intro image_mono) (auto simp: nh)
  from specChain_vars[of k c] Cons.IH[of "k + (length c - 3)"] a b show ?case
    by (simp add: inputVars_append inputVars_Cons) blast
qed

lemma specPad_vars: "inputVars (specPad k cs) \<subseteq> inputVars cs \<union> set (specPadNames k cs)"
proof (induction cs arbitrary: k)
  case Nil
  then show ?case by simp
next
  case (Cons c cs)
  consider "length c = 1" | "length c = 2" | "length c \<noteq> 1 \<and> length c \<noteq> 2" by blast
  then show ?case
  proof cases
    case 1
    from Cons.IH[of "Suc k"] show ?thesis
      by (auto simp: specPad_one[OF 1] inputVars_Cons lit_def nlit_def)
  next
    case 2
    from Cons.IH[of "Suc k"] show ?thesis
      by (auto simp: specPad_two[OF 2] inputVars_Cons lit_def)
  next
    case 3
    from Cons.IH[of k] 3 show ?thesis
      by (auto simp: specPad_other inputVars_Cons)
  qed
qed

lemma specOutput_vars: "inputVars (specOutput f) \<subseteq> inputVars f \<union> set (specNames f)"
proof -
  have "inputVars (specOutput f) \<subseteq>
      inputVars (specSplit 1 f) \<union> set (specPadNames (1 + numHelpers f) (specSplit 1 f))"
    unfolding specOutput_def by (rule specPad_vars)
  moreover have "inputVars (specSplit 1 f) \<subseteq> inputVars f \<union> helperName 120 ` {1 ..< 1 + numHelpers f}"
    by (rule specSplit_vars)
  moreover have "set (specNames f) = helperName 120 ` {1 ..< 1 + numHelpers f} \<union>
      set (specPadNames (1 + numHelpers f) (specSplit 1 f))"
    unfolding specNames_def set_append set_map set_upt ..
  ultimately show ?thesis by blast
qed

lemma split_run_spec:
  assumes "m = Tseitin \<or> m = Split"
  shows "formula (transformTo3CNF f m) = specOutput f" and "freshNames f m = specNames f"
proof -
  define st1 where
    "st1 = pushStep (ascii ''Identifying clauses that need splitting...'') initState"
  define st3 where
    "st3 = pushStep (ascii ''Padding short clauses to exactly 3 literals...'') (splitFor f st1)"
  have i: "t_result st1 = []" "t_helperVarCount st1 = 1" "t_fresh st1 = []"
    by (simp_all add: st1_def initState_def)
  from splitFor_spec[of f st1] i
  have s: "t_result st3 = specSplit 1 f" "t_helperVarCount st3 = 1 + numHelpers f"
    "t_fresh st3 = map (helperName 120) [1 ..< 1 + numHelpers f]"
    by (simp_all add: st3_def)
  have run: "transformRun f m =
      pushStep (ascii ''Transformation complete! All clauses now have exactly 3 literals.'')
        ((snd (padMap (t_result st3) st3))\<lparr>t_result := fst (padMap (t_result st3) st3)\<rparr>)"
    using assms by (auto simp add: transformRun_def Let_def case_prod_beta st1_def st3_def)
  from padMap_spec[of "t_result st3" st3] s
  show "formula (transformTo3CNF f m) = specOutput f"
    by (simp add: transformTo3CNF_def run specOutput_def)
  from padMap_spec[of "t_result st3" st3] s
  show "freshNames f m = specNames f"
    by (simp add: freshNames_def run specNames_def)
qed

text \<open>
  C1, as the claim states it, fails: the variables the strategy introduces are named from
  the counter and need not be fresh. For \<^verbatim>\<open>(y1)\<close> the second pass appends the variable
  \<^verbatim>\<open>y1\<close> and its negation, and \<^verbatim>\<open>y1\<close> is the variable of the input clause.
\<close>

theorem split_strategy_fresh_counterexample:
  "formula (transformTo3CNF formula_y1 Split) =
     [[lit [121, 49], lit [121, 49], nlit [121, 49]]] \<and>
   specNames formula_y1 = [[121, 49]] \<and>
   \<not> (set (specNames formula_y1) \<inter> inputVars formula_y1 = {})"
proof -
  have 1: "formula (transformTo3CNF formula_y1 Split) =
     [[lit [121, 49], lit [121, 49], nlit [121, 49]]]"
    by (simp add: formula_y1_def transform_eval)
  have 2: "specNames formula_y1 = [[121, 49]]"
    by (simp add: specNames_def numHelpers_def formula_y1_def helperName_def show_nat_small)
  have 3: "[121, 49] \<in> inputVars formula_y1"
    by (simp add: inputVars_def formula_y1_def lit_def)
  from 1 2 3 show ?thesis by simp
qed

text \<open>
  C1, amended. Under \<^verbatim>\<open>'split'\<close> or \<^verbatim>\<open>'tseitin'\<close>, \<^verbatim>\<open>transformTo3CNF\<close> returns
  exactly the formula specified above: over-long clauses are chain-split with helper
  variables \<open>x\<close>, then every clause of one literal is padded with a variable \<open>y\<close> and its
  negation and every clause of two literals with one positive variable \<open>z\<close>, all named
  from one counter that starts at 1. When every clause of the input is non-empty, as
  the data model has it, every clause of the returned formula has exactly three literals.
  Every variable of the returned formula is a variable of the input or one of the
  introduced names. The introduced names are pairwise distinct, each is a letter p, x, y,
  z followed by decimal digits, and they are fresh, that is distinct from every variable
  name of the input, whenever no variable name of the input has that shape.
\<close>

theorem split_strategy_output:
  assumes "m = Tseitin \<or> m = Split"
  shows "formula (transformTo3CNF f m) = specOutput f \<and>
    ((\<forall>c\<in>set f. c \<noteq> []) \<longrightarrow> (\<forall>c\<in>set (formula (transformTo3CNF f m)). length c = 3)) \<and>
    inputVars (formula (transformTo3CNF f m)) \<subseteq> inputVars f \<union> set (specNames f) \<and>
    distinct (specNames f) \<and> (\<forall>v\<in>set (specNames f). isHelperName v) \<and>
    ((\<forall>v\<in>inputVars f. \<not> isHelperName v) \<longrightarrow> set (specNames f) \<inter> inputVars f = {})"
proof -
  note R = split_run_spec[OF assms, of f]
  have arity: "\<forall>c\<in>set (formula (transformTo3CNF f m)). length c = 3" if ne: "\<forall>c\<in>set f. c \<noteq> []"
  proof -
    define st1 where
      "st1 = pushStep (ascii ''Identifying clauses that need splitting...'') initState"
    obtain new where new: "t_result (splitFor f st1) = t_result st1 @ new"
      "\<forall>c\<in>set new. length c = 3 \<or> (c \<in> set f \<and> length c < 3)"
      using splitFor_result by blast
    have "t_result st1 = []" by (simp add: st1_def initState_def)
    with new ne
    have mid: "\<forall>c\<in>set (t_result (splitFor f st1)). length c = 1 \<or> length c = 2 \<or> length c = 3"
      by (auto simp: less_Suc_eq numeral_3_eq_3)
    have "\<forall>n \<in> set (map length (formula (transformTo3CNF f m))). n = 3"
      unfolding transform_split_formula[OF assms] padMap_lengths st1_def[symmetric]
      using mid by auto
    then show ?thesis by simp
  qed
  have vars: "inputVars (formula (transformTo3CNF f m)) \<subseteq> inputVars f \<union> set (specNames f)"
    unfolding R(1) by (rule specOutput_vars)
  have inv: "freshInv (transformRun f m)" by (rule freshInv_transformRun)
  have d: "distinct (specNames f)"
    using inv R(2) by (simp add: freshInv_def freshNames_def)
  have h: "isHelperName v" if "v \<in> set (specNames f)" for v
  proof -
    from that inv R(2) obtain c k where "c \<in> {112, 120, 121, 122}" "v = c # show_nat k"
      unfolding freshInv_def freshNames_def by metis
    then show ?thesis using isHelperName_fresh by simp
  qed
  have dis: "set (specNames f) \<inter> inputVars f = {}" if "\<forall>v\<in>inputVars f. \<not> isHelperName v"
  proof (rule ccontr)
    assume "set (specNames f) \<inter> inputVars f \<noteq> {}"
    then obtain v where "v \<in> set (specNames f)" "v \<in> inputVars f" by blast
    with h that show False by blast
  qed
  from R(1) arity vars d h dis show ?thesis by simp
qed

theorem split_strategy_output_witness:
  "(Split = Tseitin \<or> Split = Split) \<and> list_all (\<lambda>c. c \<noteq> []) formula_A \<and>
   list_all (list_all (\<lambda>l. \<not> isHelperName (variable l))) formula_A \<and>
   formula (transformTo3CNF formula_A Split) =
     [[lit [65], lit [66], lit [122, 50]],
      [nlit [67], lit [68], lit [120, 49]],
      [nlit [120, 49], lit [69], lit [70]]] \<and>
   list_all (\<lambda>c. length c = 3) (formula (transformTo3CNF formula_A Split)) \<and>
   specNames formula_A = [[120, 49], [122, 50]] \<and>
   set (specNames formula_A) \<inter> inputVars formula_A = {} \<and>
   formula (transformTo3CNF formula_long Tseitin) =
     [[lit [65], lit [66], lit [120, 49]],
      [nlit [120, 49], lit [67], lit [120, 50]],
      [nlit [120, 50], lit [68], lit [120, 51]],
      [nlit [120, 51], lit [69], lit [70]]]"
proof -
  have m: "Split = Tseitin \<or> Split = Split" by simp
  have h1: "\<forall>c\<in>set formula_A. c \<noteq> []" by (simp add: formula_A_def)
  have h1': "list_all (\<lambda>c. c \<noteq> []) formula_A" by (simp add: formula_A_def)
  have h2: "\<forall>v\<in>inputVars formula_A. \<not> isHelperName v"
    by (simp add: inputVars_def isHelperName_def formula_A_def lit_def nlit_def)
  have h2': "list_all (list_all (\<lambda>l. \<not> isHelperName (variable l))) formula_A"
    by (simp add: isHelperName_def formula_A_def lit_def nlit_def)
  have o: "specOutput formula_A =
     [[lit [65], lit [66], lit [122, 50]],
      [nlit [67], lit [68], lit [120, 49]],
      [nlit [120, 49], lit [69], lit [70]]]"
    by (simp add: specOutput_def numHelpers_def formula_A_def helperName_def show_nat_small
        lit_def nlit_def)
  have n: "specNames formula_A = [[120, 49], [122, 50]]"
    by (simp add: specNames_def numHelpers_def formula_A_def helperName_def show_nat_small
        lit_def nlit_def)
  have ol: "specOutput formula_long =
     [[lit [65], lit [66], lit [120, 49]],
      [nlit [120, 49], lit [67], lit [120, 50]],
      [nlit [120, 50], lit [68], lit [120, 51]],
      [nlit [120, 51], lit [69], lit [70]]]"
    by (simp add: specOutput_def numHelpers_def formula_long_def helperName_def show_nat_small
        lit_def nlit_def)
  have A: "formula (transformTo3CNF formula_A Split) = specOutput formula_A"
    "\<forall>c\<in>set (formula (transformTo3CNF formula_A Split)). length c = 3"
    "set (specNames formula_A) \<inter> inputVars formula_A = {}"
    using split_strategy_output[OF m, of formula_A] h1 h2 by blast+
  have L: "formula (transformTo3CNF formula_long Tseitin) = specOutput formula_long"
    using split_strategy_output[of Tseitin formula_long] by simp
  from A L h1' h2' o n ol show ?thesis
    by (simp add: list_all_iff)
qed

section \<open>Validation: the checks in order\<close>

text \<open>The equations that evaluate the string functions on a concrete text.\<close>

lemmas string_eval = trim_def is_ws_def is_alnum_def remove_ws_def remove_parens_def
  startsWith_def validChar_def validCharsTest_def

lemmas render_eval = formulaToString_def clauseToString_def literalToString_def lit_def nlit_def

lemma depthOf_Nil [simp]: "depthOf [] = 0"
  by (simp add: depthOf_def)


lemma prefixesOk_Nil [simp]: "prefixesOk d []"
  by (simp add: prefixesOk_def)















section \<open>Parsing and rendering\<close>

lemma alnum_plain:
  "is_alnum c \<Longrightarrow> \<not> is_ws c \<and> c \<noteq> c_AND \<and> c \<noteq> c_OR \<and> c \<noteq> c_NOT \<and> c \<noteq> c_LP \<and> c \<noteq> c_RP"
  by (auto simp: is_alnum_def is_ws_def)

lemma ws_facts:
  "is_ws c_SP" "\<not> is_ws c_LP" "\<not> is_ws c_RP" "\<not> is_ws c_AND" "\<not> is_ws c_OR" "\<not> is_ws c_NOT"
  by (simp_all add: is_ws_def)

lemma filter_join: "filter P (join sep xs) = join (filter P sep) (map (filter P) xs)"
  by (induction sep xs rule: join.induct) simp_all

lemma join_chars:
  "\<forall>x\<in>set xs. \<forall>c\<in>set x. P c \<Longrightarrow> \<forall>c\<in>set sep. P c \<Longrightarrow> \<forall>c\<in>set (join sep xs). P c"
  by (induction sep xs rule: join.induct) auto

lemma map_filter_id: "\<forall>x\<in>set xs. \<forall>c\<in>set x. P c \<Longrightarrow> map (filter P) xs = xs"
  by (induction xs) (simp_all add: filter_id_conv)

lemma split_on_nonempty: "split_on d s \<noteq> []"
  by (induction s) (auto split: list.split)

lemma split_on_no_sep: "d \<notin> set x \<Longrightarrow> split_on d x = [x]"
  by (induction x) auto

lemma split_on_append_sep: "d \<notin> set x \<Longrightarrow> split_on d (x @ d # r) = x # split_on d r"
  by (induction x) auto

text \<open>Splitting what was joined with the separator gives the pieces back.\<close>

lemma split_on_join:
  "xs \<noteq> [] \<Longrightarrow> \<forall>x\<in>set xs. d \<notin> set x \<Longrightarrow> split_on d (join [d] xs) = xs"
proof (induction "[d]" xs rule: join.induct)
  case 1
  then show ?case by simp
next
  case (2 x)
  then show ?case by (simp add: split_on_no_sep)
next
  case (3 x y ys)
  then show ?case by (simp add: split_on_append_sep)
qed

lemma dropWhile_all: "(\<forall>x\<in>set (dropWhile P s). P x) \<longleftrightarrow> (\<forall>x\<in>set s. P x)"
proof
  assume a: "\<forall>x\<in>set (dropWhile P s). P x"
  have "dropWhile P s = []"
  proof (rule ccontr)
    assume ne: "dropWhile P s \<noteq> []"
    then have "\<not> P (hd (dropWhile P s))" by (rule hd_dropWhile)
    moreover from ne have "hd (dropWhile P s) \<in> set (dropWhile P s)" by simp
    ultimately show False using a by blast
  qed
  then show "\<forall>x\<in>set s. P x" by (simp add: dropWhile_eq_Nil_conv)
next
  assume "\<forall>x\<in>set s. P x"
  then show "\<forall>x\<in>set (dropWhile P s). P x" by (meson set_dropWhileD)
qed

lemma trim_empty_iff: "trim s = [] \<longleftrightarrow> list_all is_ws s"
  by (simp add: trim_def list_all_iff dropWhile_eq_Nil_conv dropWhile_all)

text \<open>A rendered literal has no whitespace, no parenthesis and no AND or OR symbol.\<close>

lemma literalToString_chars:
  assumes "isVariableToken (variable l)"
  shows "\<forall>c\<in>set (literalToString l). is_alnum c \<or> c = c_NOT"
  using assms by (auto simp: literalToString_def isVariableToken_def list_all_iff)

lemma literalToString_plain:
  assumes "isVariableToken (variable l)"
  shows "\<forall>c\<in>set (literalToString l). \<not> is_ws c \<and> c \<noteq> c_AND \<and> c \<noteq> c_OR \<and> c \<noteq> c_LP \<and> c \<noteq> c_RP"
proof
  fix c assume "c \<in> set (literalToString l)"
  with literalToString_chars[OF assms] have "is_alnum c \<or> c = c_NOT" by blast
  then show "\<not> is_ws c \<and> c \<noteq> c_AND \<and> c \<noteq> c_OR \<and> c \<noteq> c_LP \<and> c \<noteq> c_RP"
  proof
    assume "is_alnum c"
    then show ?thesis using alnum_plain by blast
  next
    assume "c = c_NOT"
    then show ?thesis by (simp add: ws_facts)
  qed
qed

lemma literalToString_nonempty: "isVariableToken (variable l) \<Longrightarrow> literalToString l \<noteq> []"
  by (simp add: literalToString_def isVariableToken_def)

lemma parse_literalToString:
  assumes "isVariableToken (variable l)"
  shows "parseLiterals (literalToString l # rest) = l # parseLiterals rest"
proof -
  obtain a v where v: "variable l = a # v" "is_alnum a"
    using assms by (cases "variable l") (auto simp: isVariableToken_def)
  then have a: "a \<noteq> c_NOT" using alnum_plain by blast
  have "\<not> list_all is_ws (literalToString l)"
    using literalToString_plain[OF assms] literalToString_nonempty[OF assms]
    by (cases "literalToString l") (auto simp: list_all_iff)
  then have t: "trim (literalToString l) \<noteq> []" by (simp add: trim_empty_iff)
  show ?thesis
  proof (cases "negated l")
    case True
    then have "literalToString l = c_NOT # variable l" by (simp add: literalToString_def)
    with t True show ?thesis by (simp add: startsWith_def Let_def)
  next
    case False
    then have "literalToString l = variable l" by (simp add: literalToString_def)
    with t False v a show ?thesis by (simp add: startsWith_def Let_def)
  qed
qed

lemma parseLiterals_render:
  "list_all (\<lambda>l. isVariableToken (variable l)) c \<Longrightarrow> parseLiterals (map literalToString c) = c"
  by (induction c) (simp_all add: parse_literalToString del: parseLiterals.simps(2))

lemma filter_id_lits:
  assumes "list_all (\<lambda>l. isVariableToken (variable l)) c"
  shows "map (filter (\<lambda>c. \<not> is_ws c)) (map literalToString c) = map literalToString c"
    and "map (filter (\<lambda>c. c \<noteq> c_LP \<and> c \<noteq> c_RP)) (map literalToString c) = map literalToString c"
proof -
  have plain: "\<forall>x\<in>set (map literalToString c). \<forall>ch\<in>set x.
      \<not> is_ws ch \<and> ch \<noteq> c_AND \<and> ch \<noteq> c_OR \<and> ch \<noteq> c_LP \<and> ch \<noteq> c_RP"
    using assms literalToString_plain by (auto simp: list_all_iff)
  show "map (filter (\<lambda>c. \<not> is_ws c)) (map literalToString c) = map literalToString c"
    by (rule map_filter_id) (use plain in blast)
  show "map (filter (\<lambda>c. c \<noteq> c_LP \<and> c \<noteq> c_RP)) (map literalToString c) = map literalToString c"
    by (rule map_filter_id) (use plain in blast)
qed

lemma remove_ws_clause:
  assumes "list_all (\<lambda>l. isVariableToken (variable l)) c"
  shows "remove_ws (clauseToString c) = clauseCompact c"
  using filter_id_lits(1)[OF assms]
  by (simp add: remove_ws_def clauseToString_def clauseCompact_def filter_join ws_facts
      del: map_map)

lemma remove_parens_compact:
  assumes "list_all (\<lambda>l. isVariableToken (variable l)) c"
  shows "remove_parens (clauseCompact c) = join [c_OR] (map literalToString c)"
  using filter_id_lits(2)[OF assms]
  by (simp add: remove_parens_def clauseCompact_def filter_join del: map_map)

lemma clauseCompact_no_AND:
  assumes "list_all (\<lambda>l. isVariableToken (variable l)) c"
  shows "c_AND \<notin> set (clauseCompact c)"
proof -
  have "\<forall>x\<in>set (map literalToString c). \<forall>ch\<in>set x. ch \<noteq> c_AND"
    using assms literalToString_plain by (auto simp: list_all_iff)
  then have "\<forall>ch\<in>set (join [c_OR] (map literalToString c)). ch \<noteq> c_AND"
    by (rule join_chars) simp
  then show ?thesis by (auto simp: clauseCompact_def)
qed

lemma parse_clauseCompact:
  assumes "c \<noteq> []" and "list_all (\<lambda>l. isVariableToken (variable l)) c"
  shows "parseClauses (clauseCompact c # rest) = c # parseClauses rest"
proof -
  have "\<forall>x\<in>set (map literalToString c). c_OR \<notin> set x"
    using assms(2) literalToString_plain by (auto simp: list_all_iff)
  with assms(1) have "split_on c_OR (join [c_OR] (map literalToString c)) = map literalToString c"
    by (simp add: split_on_join)
  with assms show ?thesis
    by (simp add: remove_parens_compact parseLiterals_render Let_def)
qed

lemma parseClauses_compact: "wellFormed f \<Longrightarrow> parseClauses (map clauseCompact f) = f"
  by (induction f) (simp_all add: wellFormed_def parse_clauseCompact del: parseClauses.simps(2))

lemma remove_ws_formula:
  assumes "wellFormed f"
  shows "remove_ws (formulaToString f) = join [c_AND] (map clauseCompact f)"
proof -
  have "map (filter (\<lambda>c. \<not> is_ws c)) (map clauseToString f) = map clauseCompact f"
    using assms remove_ws_clause by (auto simp: wellFormed_def list_all_iff remove_ws_def)
  then show ?thesis
    by (simp add: remove_ws_def formulaToString_def filter_join ws_facts del: map_map)
qed

text \<open>
  C4. For every formula in the sense of the data model (every clause non-empty, every
  variable name a non-empty token of letters and digits), parsing the rendered text gives
  the formula back: \<^verbatim>\<open>parseFormula(formulaToString(f))\<close> is \<open>f\<close>.
\<close>

theorem parse_render_roundtrip:
  assumes "\<forall>c\<in>set f. c \<noteq> [] \<and> (\<forall>l\<in>set c. variable l \<noteq> [] \<and> (\<forall>ch\<in>set (variable l). is_alnum ch))"
  shows "parseFormula (formulaToString f) = f"
proof (cases "f = []")
  case True
  then show ?thesis
    by (simp add: parseFormula_def formulaToString_def remove_ws_def remove_parens_def trim_def)
next
  case False
  have wf: "wellFormed f"
    using assms by (simp add: wellFormed_def isVariableToken_def list_all_iff)
  have "\<forall>x\<in>set (map clauseCompact f). c_AND \<notin> set x"
    using wf clauseCompact_no_AND by (auto simp: wellFormed_def list_all_iff)
  with False have "split_on c_AND (join [c_AND] (map clauseCompact f)) = map clauseCompact f"
    by (simp add: split_on_join)
  then show ?thesis
    using wf by (simp add: parseFormula_def remove_ws_formula parseClauses_compact)
qed

theorem parse_render_roundtrip_witness:
  "list_all (\<lambda>c. c \<noteq> [] \<and> list_all (\<lambda>l. variable l \<noteq> [] \<and> list_all is_alnum (variable l)) c) formula_A \<and>
   formulaToString formula_A =
     [40, 65, 32, 8744, 32, 66, 41, 32, 8743, 32,
      40, 172, 67, 32, 8744, 32, 68, 32, 8744, 32, 69, 32, 8744, 32, 70, 41] \<and>
   parseFormula (formulaToString formula_A) = formula_A"
proof -
  have h: "\<forall>c\<in>set formula_A. c \<noteq> [] \<and> (\<forall>l\<in>set c. variable l \<noteq> [] \<and> (\<forall>ch\<in>set (variable l). is_alnum ch))"
    by (simp add: formula_A_def lit_def nlit_def is_alnum_def)
  have h': "list_all (\<lambda>c. c \<noteq> [] \<and> list_all (\<lambda>l. variable l \<noteq> [] \<and> list_all is_alnum (variable l)) c) formula_A"
    by (simp add: formula_A_def lit_def nlit_def is_alnum_def)
  have r: "formulaToString formula_A =
     [40, 65, 32, 8744, 32, 66, 41, 32, 8743, 32,
      40, 172, 67, 32, 8744, 32, 68, 32, 8744, 32, 69, 32, 8744, 32, 70, 41]"
    by (simp add: formula_A_def render_eval)
  from parse_render_roundtrip[OF h] h' r show ?thesis by simp
qed

text \<open>
  C10. The claim is that no literal of a parsed formula has an empty variable name. The
  parser skips a literal substring that is empty, and only then strips the NOT symbol: the
  substring that consists of the NOT symbol alone is kept and gives a negated literal whose
  variable is the empty string. \<^verbatim>\<open>(A | ~)\<close> passes \<^verbatim>\<open>validateFormula\<close> and parses to
  such a literal.
\<close>

theorem parse_bare_not:
  "validateFormula text_bare_not = \<lparr>valid = True, error = None\<rparr> \<and>
   parseFormula text_bare_not = [[lit [65], \<lparr>variable = [], negated = True\<rparr>]]"
  by (simp add: text_bare_not_def validateFormula_def parseFormula_def string_eval lit_def)

section \<open>Graph lowering\<close>

subsection \<open>The vertices of a rendered formula\<close>

lemma trim_ws_Cons: "is_ws a \<Longrightarrow> trim (a # p) = trim p"
  by (simp add: trim_def)

lemma trim_ws_snoc: "is_ws a \<Longrightarrow> trim (p @ [a]) = trim p"
proof (cases "\<forall>x\<in>set p. is_ws x")
  case True
  assume "is_ws a"
  with True have "trim (p @ [a]) = []" by (simp add: trim_empty_iff list_all_iff)
  moreover from True have "trim p = []" by (simp add: trim_empty_iff list_all_iff)
  ultimately show ?thesis by simp
next
  case False
  assume a: "is_ws a"
  from False have "dropWhile is_ws (p @ [a]) = dropWhile is_ws p @ [a]"
    by (simp add: dropWhile_append)
  with a show ?thesis by (simp add: trim_def)
qed

lemma trim_id: "x \<noteq> [] \<Longrightarrow> \<not> is_ws (hd x) \<Longrightarrow> \<not> is_ws (last x) \<Longrightarrow> trim x = x"
proof -
  assume x: "x \<noteq> []" and h: "\<not> is_ws (hd x)" and l: "\<not> is_ws (last x)"
  from x h have 1: "dropWhile is_ws x = x" by (cases x) simp_all
  from x l have 2: "dropWhile is_ws (rev x) = rev x" by (cases "rev x") (simp_all add: last_rev hd_rev)
  from 1 2 show ?thesis by (simp add: trim_def)
qed

lemma split_on_ws_Cons:
  assumes "is_ws a" and "a \<noteq> d"
  shows "map trim (split_on d (a # s)) = map trim (split_on d s)"
proof -
  obtain p ps where "split_on d s = p # ps"
    using split_on_nonempty by (cases "split_on d s") auto
  with assms show ?thesis by (simp add: trim_ws_Cons)
qed

text \<open>
  Splitting a text that was joined with the separator between two spaces, and trimming
  the pieces, gives the pieces back.
\<close>

lemma split_trim_join:
  assumes "xs \<noteq> []" and "\<forall>x\<in>set xs. d \<notin> set x \<and> trim x = x" and "d \<noteq> c_SP"
  shows "map trim (split_on d (join [c_SP, d, c_SP] xs)) = xs"
  using assms
proof (induction "[c_SP, d, c_SP]" xs rule: join.induct)
  case 1
  then show ?case by simp
next
  case (2 x)
  then show ?case by (simp add: split_on_no_sep)
next
  case (3 x y ys)
  have j: "join [c_SP, d, c_SP] (x # y # ys) = (x @ [c_SP]) @ d # (c_SP # join [c_SP, d, c_SP] (y # ys))"
    by simp
  have nd: "d \<notin> set (x @ [c_SP])" using 3 by auto
  have "map trim (split_on d (join [c_SP, d, c_SP] (x # y # ys))) =
        trim (x @ [c_SP]) # map trim (split_on d (c_SP # join [c_SP, d, c_SP] (y # ys)))"
    unfolding j split_on_append_sep[OF nd] by simp
  also have "trim (x @ [c_SP]) = x"
    using 3 by (simp add: trim_ws_snoc ws_facts)
  also have "map trim (split_on d (c_SP # join [c_SP, d, c_SP] (y # ys))) =
             map trim (split_on d (join [c_SP, d, c_SP] (y # ys)))"
    using 3 by (intro split_on_ws_Cons) (auto simp: ws_facts)
  also have "\<dots> = y # ys" using 3 by simp
  finally show ?case .
qed

lemma trim_literalToString:
  assumes "isVariableToken (variable l)"
  shows "trim (literalToString l) = literalToString l"
proof -
  have ne: "literalToString l \<noteq> []" by (rule literalToString_nonempty[OF assms])
  then have "hd (literalToString l) \<in> set (literalToString l)"
    "last (literalToString l) \<in> set (literalToString l)" by simp_all
  with literalToString_plain[OF assms] ne show ?thesis
    by (intro trim_id) auto
qed

lemma trim_clauseToString: "trim (clauseToString c) = clauseToString c"
  by (rule trim_id) (simp_all add: clauseToString_def ws_facts)

lemma clauseToString_no_AND:
  assumes "list_all (\<lambda>l. isVariableToken (variable l)) c"
  shows "c_AND \<notin> set (clauseToString c)"
proof -
  have "\<forall>x\<in>set (map literalToString c). \<forall>ch\<in>set x. ch \<noteq> c_AND"
    using assms literalToString_plain by (auto simp: list_all_iff)
  then have "\<forall>ch\<in>set (join [c_SP, c_OR, c_SP] (map literalToString c)). ch \<noteq> c_AND"
    by (rule join_chars) simp
  then show ?thesis by (auto simp: clauseToString_def)
qed

lemma remove_parens_clauseToString:
  assumes "list_all (\<lambda>l. isVariableToken (variable l)) c"
  shows "remove_parens (clauseToString c) = join [c_SP, c_OR, c_SP] (map literalToString c)"
  using filter_id_lits(2)[OF assms]
  by (simp add: remove_parens_def clauseToString_def filter_join del: map_map)

lemma graph_clauses_render:
  assumes "wellFormed f" and "f \<noteq> []"
  shows "map (\<lambda>c. remove_parens (trim c)) (split_on c_AND (formulaToString f)) =
         map (\<lambda>c. join [c_SP, c_OR, c_SP] (map literalToString c)) f"
proof -
  have "\<forall>x\<in>set (map clauseToString f). c_AND \<notin> set x \<and> trim x = x"
    using assms(1) clauseToString_no_AND trim_clauseToString
    by (auto simp: wellFormed_def list_all_iff)
  with assms(2) have "map trim (split_on c_AND (formulaToString f)) = map clauseToString f"
    unfolding formulaToString_def by (intro split_trim_join) simp_all
  then have "map remove_parens (map trim (split_on c_AND (formulaToString f))) =
        map remove_parens (map clauseToString f)"
    by (rule arg_cong)
  then have "map (\<lambda>c. remove_parens (trim c)) (split_on c_AND (formulaToString f)) =
        map remove_parens (map clauseToString f)"
    by (simp add: comp_def)
  also have "\<dots> = map (\<lambda>c. join [c_SP, c_OR, c_SP] (map literalToString c)) f"
    using assms(1) remove_parens_clauseToString by (simp add: wellFormed_def list_all_iff)
  finally show ?thesis .
qed

lemma graph_lits_render:
  assumes "c \<noteq> []" and "list_all (\<lambda>l. isVariableToken (variable l)) c"
  shows "map trim (split_on c_OR (join [c_SP, c_OR, c_SP] (map literalToString c))) =
         map literalToString c"
proof -
  have "\<forall>x\<in>set (map literalToString c). c_OR \<notin> set x \<and> trim x = x"
    using assms(2) literalToString_plain trim_literalToString by (auto simp: list_all_iff)
  with assms(1) show ?thesis by (intro split_trim_join) simp_all
qed

lemma makeLiteral_render:
  assumes "isVariableToken (variable l)"
  shows "makeLiteral ci li (literalToString l) = vertexOf ci li l"
proof -
  obtain a v where v: "variable l = a # v" "is_alnum a"
    using assms by (cases "variable l") (auto simp: isVariableToken_def)
  then have a: "a \<noteq> c_NOT" using alnum_plain by blast
  show ?thesis
  proof (cases "negated l")
    case True
    then have "literalToString l = c_NOT # variable l" by (simp add: literalToString_def)
    with True show ?thesis by (simp add: makeLiteral_def vertexOf_def startsWith_def Let_def)
  next
    case False
    then have "literalToString l = variable l" by (simp add: literalToString_def)
    with False v a show ?thesis by (simp add: makeLiteral_def vertexOf_def startsWith_def Let_def)
  qed
qed

lemma enumerate_map_arg:
  "map (\<lambda>(i, s). F i s) (enumerate n (map g xs)) = map (\<lambda>(i, x). F i (g x)) (enumerate n xs)"
  by (induction xs arbitrary: n) simp_all

lemma in_enumerate_snd: "p \<in> set (enumerate n xs) \<Longrightarrow> snd p \<in> set xs"
proof -
  assume "p \<in> set (enumerate n xs)"
  then have "fst p - n < length xs" "xs ! (fst p - n) = snd p"
    by (auto simp: in_set_enumerate_eq)
  then show ?thesis using nth_mem by metis
qed

lemma clauseLiterals_render:
  assumes "c \<noteq> []" and "list_all (\<lambda>l. isVariableToken (variable l)) c"
  shows "clauseLiterals ci (join [c_SP, c_OR, c_SP] (map literalToString c)) =
         map (\<lambda>(li, l). vertexOf ci li l) (enumerate 0 c)"
proof -
  have "clauseLiterals ci (join [c_SP, c_OR, c_SP] (map literalToString c)) =
        map (\<lambda>(li, l). makeLiteral ci li (literalToString l)) (enumerate 0 c)"
    by (simp add: clauseLiterals_def graph_lits_render[OF assms] enumerate_map_arg)
  also have "\<dots> = map (\<lambda>(li, l). vertexOf ci li l) (enumerate 0 c)"
  proof (rule map_cong[OF refl])
    fix p assume "p \<in> set (enumerate 0 c)"
    then have "snd p \<in> set c" by (rule in_enumerate_snd)
    with assms(2) have "isVariableToken (variable (snd p))" by (simp add: list_all_iff)
    then show "(case p of (li, l) \<Rightarrow> makeLiteral ci li (literalToString l)) =
               (case p of (li, l) \<Rightarrow> vertexOf ci li l)"
      by (cases p) (simp add: makeLiteral_render)
  qed
  finally show ?thesis .
qed

lemma literals_render:
  assumes "wellFormed f" and "f \<noteq> []"
  shows "literals (parseFormulaToGraph (formulaToString f)) = formulaVertices f"
proof -
  let ?R = "\<lambda>c. join [c_SP, c_OR, c_SP] (map literalToString c)"
  have "literals (parseFormulaToGraph (formulaToString f)) =
        concat (map (\<lambda>(ci, cl). clauseLiterals ci cl) (enumerate 0 (map ?R f)))"
    by (simp add: parseFormulaToGraph_def Let_def graph_clauses_render[OF assms])
  also have "map (\<lambda>(ci, cl). clauseLiterals ci cl) (enumerate 0 (map ?R f)) =
             map (\<lambda>(ci, c). clauseLiterals ci (?R c)) (enumerate 0 f)"
    by (rule enumerate_map_arg)
  also have "\<dots> = map (\<lambda>(ci, c). map (\<lambda>(li, l). vertexOf ci li l) (enumerate 0 c)) (enumerate 0 f)"
  proof (rule map_cong[OF refl])
    fix p assume "p \<in> set (enumerate 0 f)"
    then have "snd p \<in> set f" by (rule in_enumerate_snd)
    with assms(1) have "snd p \<noteq> []" "list_all (\<lambda>l. isVariableToken (variable l)) (snd p)"
      by (simp_all add: wellFormed_def list_all_iff)
    then show "(case p of (ci, c) \<Rightarrow> clauseLiterals ci (?R c)) =
               (case p of (ci, c) \<Rightarrow> map (\<lambda>(li, l). vertexOf ci li l) (enumerate 0 c))"
      by (cases p) (simp add: clauseLiterals_render)
  qed
  finally show ?thesis by (simp add: formulaVertices_def)
qed

lemma length_vertices_from:
  "length (concat (map (\<lambda>(ci, c). map (\<lambda>(li, l). G ci li l) (enumerate 0 c)) (enumerate n f))) =
   sum_list (map length f)"
  by (induction f arbitrary: n) simp_all

lemma sum_list_threes: "\<forall>c\<in>set f. length c = 3 \<Longrightarrow> sum_list (map length f) = 3 * length f"
  by (induction f) simp_all

lemma length_formulaVertices:
  "\<forall>c\<in>set f. length c = 3 \<Longrightarrow> length (formulaVertices f) = 3 * length f"
  unfolding formulaVertices_def by (simp add: length_vertices_from sum_list_threes)

subsection \<open>Vertices and edges of any text\<close>

lemma literals_graph:
  "literals (parseFormulaToGraph t) =
   concat (map (\<lambda>(ci, cl). map (\<lambda>(li, l). makeLiteral ci li l) (enumerate 0 (litsOf cl)))
     (enumerate 0 (graphClauses t)))"
proof -
  have "(\<lambda>(ci, cl). clauseLiterals ci cl) =
        (\<lambda>(ci, cl). map (\<lambda>(li, l). makeLiteral ci li l) (enumerate 0 (litsOf cl)))"
    by (simp add: clauseLiterals_def litsOf_def fun_eq_iff)
  then show ?thesis
    by (simp add: parseFormulaToGraph_def Let_def graphClauses_def)
qed

lemma in_literals:
  "v \<in> set (literals (parseFormulaToGraph t)) \<longleftrightarrow>
   (\<exists>ci li. ci < length (graphClauses t) \<and> li < length (litsOf (graphClauses t ! ci)) \<and>
      v = makeLiteral ci li (litsOf (graphClauses t ! ci) ! li))"
  unfolding literals_graph
  by (auto simp: in_set_enumerate_eq image_iff Bex_def)

lemma append_sep_eq:
  "sep \<notin> set x \<Longrightarrow> sep \<notin> set x' \<Longrightarrow> x @ sep # y = x' @ sep # y' \<Longrightarrow> x = x' \<and> y = y'"
proof (induction x arbitrary: x')
  case Nil
  then show ?case by (cases x') auto
next
  case (Cons a x)
  then show ?case by (cases x') auto
qed

text \<open>An id names one clause index and one position.\<close>

lemma literalId_inj: "literalId a b = literalId c d \<Longrightarrow> a = c \<and> b = d"
proof -
  assume "literalId a b = literalId c d"
  then have eq: "show_nat a @ 45 # (108 # show_nat b) = show_nat c @ 45 # (108 # show_nat d)"
    by (simp add: literalId_def)
  have "45 \<notin> set (show_nat a)" "45 \<notin> set (show_nat c)"
    using show_nat_digits by fastforce+
  from append_sep_eq[OF this eq] show ?thesis
    using show_nat_inj by simp
qed

lemma makeLiteral_fields [simp]:
  "lit_id (makeLiteral ci li s) = literalId ci li"
  "clauseIndex (makeLiteral ci li s) = ci"
  by (simp_all add: makeLiteral_def Let_def)

lemma lit_id_inj:
  assumes "v \<in> set (literals (parseFormulaToGraph t))"
    and "v' \<in> set (literals (parseFormulaToGraph t))" and "lit_id v = lit_id v'"
  shows "v = v'"
proof -
  from assms(1) obtain ci li where v: "v = makeLiteral ci li (litsOf (graphClauses t ! ci) ! li)"
    unfolding in_literals by blast
  from assms(2) obtain ci' li' where v': "v' = makeLiteral ci' li' (litsOf (graphClauses t ! ci') ! li')"
    unfolding in_literals by blast
  from assms(3) v v' have "literalId ci li = literalId ci' li'" by simp
  then have "ci = ci' \<and> li = li'" by (rule literalId_inj)
  with v v' show ?thesis by simp
qed

lemma generateEdges_alt:
  "generateEdges L =
     concat (map (\<lambda>i. concat (map (\<lambda>j. edgeBetween (L ! i) (L ! j)) [i + 1 ..< length L]))
       [0 ..< length L])"
  by (simp add: generateEdges_def edgeBetween_def Let_def)

lemma in_edgeBetween:
  "e \<in> set (edgeBetween a b) \<longleftrightarrow>
     clauseIndex a \<noteq> clauseIndex b \<and> \<not> isContradictory a b \<and>
     e = \<lparr>edge_from = lit_id a, edge_to = lit_id b\<rparr>"
  by (auto simp: edgeBetween_def)

lemma in_generateEdges:
  "e \<in> set (generateEdges L) \<longleftrightarrow>
   (\<exists>i j. i < j \<and> j < length L \<and> clauseIndex (L ! i) \<noteq> clauseIndex (L ! j) \<and>
      \<not> isContradictory (L ! i) (L ! j) \<and>
      e = \<lparr>edge_from = lit_id (L ! i), edge_to = lit_id (L ! j)\<rparr>)"
proof -
  have "e \<in> set (generateEdges L) \<longleftrightarrow>
        (\<exists>i\<in>{0 ..< length L}. \<exists>j\<in>{Suc i ..< length L}. e \<in> set (edgeBetween (L ! i) (L ! j)))"
    unfolding generateEdges_alt by simp
  also have "\<dots> \<longleftrightarrow> (\<exists>i j. i < j \<and> j < length L \<and> e \<in> set (edgeBetween (L ! i) (L ! j)))"
  proof
    assume "\<exists>i\<in>{0 ..< length L}. \<exists>j\<in>{Suc i ..< length L}. e \<in> set (edgeBetween (L ! i) (L ! j))"
    then obtain i j where "Suc i \<le> j" "j < length L" "e \<in> set (edgeBetween (L ! i) (L ! j))"
      by auto
    then have "i < j \<and> j < length L \<and> e \<in> set (edgeBetween (L ! i) (L ! j))" by simp
    then show "\<exists>i j. i < j \<and> j < length L \<and> e \<in> set (edgeBetween (L ! i) (L ! j))" by blast
  next
    assume "\<exists>i j. i < j \<and> j < length L \<and> e \<in> set (edgeBetween (L ! i) (L ! j))"
    then obtain i j where ij: "i < j" "j < length L" "e \<in> set (edgeBetween (L ! i) (L ! j))"
      by blast
    then have "i \<in> {0 ..< length L}" "j \<in> {Suc i ..< length L}" by auto
    with ij(3) show "\<exists>i\<in>{0 ..< length L}. \<exists>j\<in>{Suc i ..< length L}.
        e \<in> set (edgeBetween (L ! i) (L ! j))" by blast
  qed
  finally show ?thesis unfolding in_edgeBetween .
qed

lemma hasEdge_iff:
  "hasEdge es a b \<longleftrightarrow>
   (\<lparr>edge_from = a, edge_to = b\<rparr> \<in> set es \<or> \<lparr>edge_from = b, edge_to = a\<rparr> \<in> set es)"
proof -
  have "e = \<lparr>edge_from = edge_from e, edge_to = edge_to e\<rparr>" for e :: edge by simp
  then show ?thesis
    unfolding hasEdge_def list_ex_iff
    by (metis edge.select_convs(1) edge.select_convs(2))
qed

lemma hasEdge_sym: "hasEdge es a b = hasEdge es b a"
  by (auto simp: hasEdge_iff)

lemma isContradictory_sym: "isContradictory a b = isContradictory b a"
  by (auto simp: isContradictory_def)

lemma edges_graph [simp]: "edges (parseFormulaToGraph t) = generateEdges (literals (parseFormulaToGraph t))"
  by (simp add: parseFormulaToGraph_def Let_def)

lemma edge_in_lowered:
  assumes "v1 \<in> set L" and "v2 \<in> set L"
    and "\<forall>v\<in>set L. \<forall>v'\<in>set L. lit_id v = lit_id v' \<longrightarrow> v = v'"
    and "\<lparr>edge_from = lit_id v1, edge_to = lit_id v2\<rparr> \<in> set (generateEdges L)"
  shows "clauseIndex v1 \<noteq> clauseIndex v2 \<and> \<not> isContradictory v1 v2"
proof -
  from assms(4) obtain i j where ij: "i < j" "j < length L"
    "clauseIndex (L ! i) \<noteq> clauseIndex (L ! j)" "\<not> isContradictory (L ! i) (L ! j)"
    and e: "\<lparr>edge_from = lit_id v1, edge_to = lit_id v2\<rparr> =
            \<lparr>edge_from = lit_id (L ! i), edge_to = lit_id (L ! j)\<rparr>"
    unfolding in_generateEdges by blast
  from e have ids: "lit_id v1 = lit_id (L ! i)" "lit_id v2 = lit_id (L ! j)" by simp_all
  from ij have mem: "L ! i \<in> set L" "L ! j \<in> set L" by simp_all
  from assms(1,3) mem(1) ids(1) have "v1 = L ! i" by blast
  moreover from assms(2,3) mem(2) ids(2) have "v2 = L ! j" by blast
  ultimately show ?thesis using ij(3,4) by simp
qed

lemma lowered_in_edge:
  assumes "i < j" and "j < length L"
    and "clauseIndex (L ! i) \<noteq> clauseIndex (L ! j)" and "\<not> isContradictory (L ! i) (L ! j)"
  shows "\<lparr>edge_from = lit_id (L ! i), edge_to = lit_id (L ! j)\<rparr> \<in> set (generateEdges L)"
  unfolding in_generateEdges using assms by blast

text \<open>
  In the graph of any text, two vertices are joined by an edge exactly when they come from
  different clauses and are not contradictory.
\<close>

lemma hasEdge_lowered:
  assumes "v1 \<in> set (literals (parseFormulaToGraph t))"
    and "v2 \<in> set (literals (parseFormulaToGraph t))"
  shows "hasEdge (edges (parseFormulaToGraph t)) (lit_id v1) (lit_id v2) \<longleftrightarrow>
         clauseIndex v1 \<noteq> clauseIndex v2 \<and> \<not> isContradictory v1 v2"
proof -
  define L where "L = literals (parseFormulaToGraph t)"
  have E: "edges (parseFormulaToGraph t) = generateEdges L"
    by (simp add: L_def)
  have inj: "\<forall>v\<in>set L. \<forall>v'\<in>set L. lit_id v = lit_id v' \<longrightarrow> v = v'"
    unfolding L_def using lit_id_inj by blast
  have m: "v1 \<in> set L" "v2 \<in> set L" using assms by (simp_all add: L_def)
  show ?thesis
    unfolding E
  proof
    assume "hasEdge (generateEdges L) (lit_id v1) (lit_id v2)"
    then consider "\<lparr>edge_from = lit_id v1, edge_to = lit_id v2\<rparr> \<in> set (generateEdges L)"
      | "\<lparr>edge_from = lit_id v2, edge_to = lit_id v1\<rparr> \<in> set (generateEdges L)"
      unfolding hasEdge_iff by blast
    then show "clauseIndex v1 \<noteq> clauseIndex v2 \<and> \<not> isContradictory v1 v2"
    proof cases
      case 1
      then show ?thesis by (rule edge_in_lowered[OF m(1) m(2) inj])
    next
      case 2
      then have "clauseIndex v2 \<noteq> clauseIndex v1 \<and> \<not> isContradictory v2 v1"
        by (rule edge_in_lowered[OF m(2) m(1) inj])
      then show ?thesis using isContradictory_sym[of v1 v2] by simp
    qed
  next
    assume a: "clauseIndex v1 \<noteq> clauseIndex v2 \<and> \<not> isContradictory v1 v2"
    from m(1) obtain i where i: "i < length L" "L ! i = v1" unfolding in_set_conv_nth by blast
    from m(2) obtain j where j: "j < length L" "L ! j = v2" unfolding in_set_conv_nth by blast
    from a i(2) j(2) have "i \<noteq> j" by blast
    then consider "i < j" | "j < i" by linarith
    then show "hasEdge (generateEdges L) (lit_id v1) (lit_id v2)"
    proof cases
      case 1
      have "\<lparr>edge_from = lit_id (L ! i), edge_to = lit_id (L ! j)\<rparr> \<in> set (generateEdges L)"
        using 1 j(1) a i(2) j(2) by (intro lowered_in_edge) simp_all
      then show ?thesis unfolding hasEdge_iff using i(2) j(2) by simp
    next
      case 2
      have "\<lparr>edge_from = lit_id (L ! j), edge_to = lit_id (L ! i)\<rparr> \<in> set (generateEdges L)"
        using 2 i(1) a i(2) j(2) isContradictory_sym[of v1 v2] by (intro lowered_in_edge) simp_all
      then show ?thesis unfolding hasEdge_iff using i(2) j(2) by simp
    qed
  qed
qed

lemma edge_endpoints:
  assumes "e \<in> set (edges (parseFormulaToGraph t))"
  shows "\<exists>v1\<in>set (literals (parseFormulaToGraph t)). \<exists>v2\<in>set (literals (parseFormulaToGraph t)).
           edge_from e = lit_id v1 \<and> edge_to e = lit_id v2"
proof -
  let ?L = "literals (parseFormulaToGraph t)"
  from assms obtain i j where ij: "i < j" "j < length ?L"
    "e = \<lparr>edge_from = lit_id (?L ! i), edge_to = lit_id (?L ! j)\<rparr>"
    by (auto simp: in_generateEdges)
  then have "?L ! i \<in> set ?L" "?L ! j \<in> set ?L" by simp_all
  with ij(3) show ?thesis by auto
qed

lemmas vertices_eval = formulaVertices_def vertexOf_def literalId_def positionOf_def positions_def
  show_nat_small lit_def nlit_def

lemma formula_C_vertices:
  "formulaVertices formula_C =
     [\<lparr>variable = [65], negated = False, lit_id = [99, 48, 45, 108, 48], clauseIndex = 0, position = (60, 80)\<rparr>,
      \<lparr>variable = [66], negated = False, lit_id = [99, 48, 45, 108, 49], clauseIndex = 0, position = (100, 140)\<rparr>,
      \<lparr>variable = [88], negated = False, lit_id = [99, 48, 45, 108, 50], clauseIndex = 0, position = (140, 80)\<rparr>,
      \<lparr>variable = [67], negated = True, lit_id = [99, 49, 45, 108, 48], clauseIndex = 1, position = (200, 80)\<rparr>,
      \<lparr>variable = [68], negated = False, lit_id = [99, 49, 45, 108, 49], clauseIndex = 1, position = (200, 150)\<rparr>,
      \<lparr>variable = [89], negated = False, lit_id = [99, 49, 45, 108, 50], clauseIndex = 1, position = (240, 220)\<rparr>,
      \<lparr>variable = [89], negated = True, lit_id = [99, 50, 45, 108, 48], clauseIndex = 2, position = (300, 150)\<rparr>,
      \<lparr>variable = [69], negated = False, lit_id = [99, 50, 45, 108, 49], clauseIndex = 2, position = (340, 80)\<rparr>,
      \<lparr>variable = [70], negated = False, lit_id = [99, 50, 45, 108, 50], clauseIndex = 2, position = (380, 140)\<rparr>]"
  by (simp add: formula_C_def vertices_eval)

lemma formula_C_hyp:
  "\<forall>c\<in>set formula_C. length c = 3 \<and>
     (\<forall>l\<in>set c. variable l \<noteq> [] \<and> (\<forall>ch\<in>set (variable l). is_alnum ch))"
  by (simp add: formula_C_def lit_def nlit_def is_alnum_def)

text \<open>
  C2, as the claim states it, fails for the formula of no clauses: its rendered text is
  empty, \<^verbatim>\<open>''.split\<close> gives one empty piece, and \<^verbatim>\<open>parseFormulaToGraph\<close> turns that
  piece into one vertex whose variable is the empty string. The claim asks for no vertex.
\<close>

theorem graph_lowering_empty_counterexample:
  "literals (lowerFormula []) =
     [\<lparr>variable = [], negated = False, lit_id = [99, 48, 45, 108, 48], clauseIndex = 0,
       position = (60, 80)\<rparr>] \<and>
   length (literals (lowerFormula [])) \<noteq> 3 * length ([] :: CNFFormula)"
  by (simp add: lowerFormula_def formulaToString_def parseFormulaToGraph_def clauseLiterals_def
      makeLiteral_def literalId_def positionOf_def positions_def show_nat_small string_eval
      Let_def)

text \<open>
  C2, amended. For every 3-CNF formula of the data model with \<open>k\<close> clauses, \<open>k\<close> at
  least 1, lowering gives exactly \<open>3k\<close> vertices, one for each literal occurrence, with the
  id, clause index and literal of its clause and position. Two vertices are joined by an
  edge exactly when their clause indices differ and they are not complementary (same
  variable, opposite negation flags); so no edge joins two vertices of one clause, none
  joins complementary literals, and every other pair is joined. Every edge joins two
  vertices.
\<close>

theorem graph_lowering:
  assumes "f \<noteq> []"
    and "\<forall>c\<in>set f. length c = 3 \<and>
           (\<forall>l\<in>set c. variable l \<noteq> [] \<and> (\<forall>ch\<in>set (variable l). is_alnum ch))"
  shows "length (literals (lowerFormula f)) = 3 * length f \<and>
    literals (lowerFormula f) = formulaVertices f \<and>
    (\<forall>v1\<in>set (literals (lowerFormula f)). \<forall>v2\<in>set (literals (lowerFormula f)).
       hasEdge (edges (lowerFormula f)) (lit_id v1) (lit_id v2) \<longleftrightarrow>
       (clauseIndex v1 \<noteq> clauseIndex v2 \<and> \<not> isContradictory v1 v2)) \<and>
    (\<forall>e\<in>set (edges (lowerFormula f)).
       \<exists>v1\<in>set (literals (lowerFormula f)). \<exists>v2\<in>set (literals (lowerFormula f)).
         edge_from e = lit_id v1 \<and> edge_to e = lit_id v2)"
proof -
  have wf: "wellFormed f"
    using assms(2) by (auto simp: wellFormed_def isVariableToken_def list_all_iff)
  have three: "\<forall>c\<in>set f. length c = 3" using assms(2) by blast
  have L: "literals (lowerFormula f) = formulaVertices f"
    unfolding lowerFormula_def by (rule literals_render[OF wf assms(1)])
  have n: "length (literals (lowerFormula f)) = 3 * length f"
    unfolding L by (rule length_formulaVertices[OF three])
  have e1: "\<forall>v1\<in>set (literals (lowerFormula f)). \<forall>v2\<in>set (literals (lowerFormula f)).
       hasEdge (edges (lowerFormula f)) (lit_id v1) (lit_id v2) \<longleftrightarrow>
       (clauseIndex v1 \<noteq> clauseIndex v2 \<and> \<not> isContradictory v1 v2)"
    unfolding lowerFormula_def using hasEdge_lowered by blast
  have e2: "\<forall>e\<in>set (edges (lowerFormula f)).
       \<exists>v1\<in>set (literals (lowerFormula f)). \<exists>v2\<in>set (literals (lowerFormula f)).
         edge_from e = lit_id v1 \<and> edge_to e = lit_id v2"
    unfolding lowerFormula_def using edge_endpoints by blast
  from n L e1 e2 show ?thesis by blast
qed

theorem graph_lowering_witness:
  "formula_C \<noteq> [] \<and>
   list_all (\<lambda>c. length c = 3 \<and> list_all (\<lambda>l. variable l \<noteq> [] \<and> list_all is_alnum (variable l)) c)
     formula_C \<and>
   length (literals (lowerFormula formula_C)) = 9 \<and>
   map lit_id (literals (lowerFormula formula_C)) =
     [[99, 48, 45, 108, 48], [99, 48, 45, 108, 49], [99, 48, 45, 108, 50],
      [99, 49, 45, 108, 48], [99, 49, 45, 108, 49], [99, 49, 45, 108, 50],
      [99, 50, 45, 108, 48], [99, 50, 45, 108, 49], [99, 50, 45, 108, 50]] \<and>
   hasEdge (edges (lowerFormula formula_C)) [99, 48, 45, 108, 49] [99, 49, 45, 108, 49] \<and>
   \<not> hasEdge (edges (lowerFormula formula_C)) [99, 49, 45, 108, 50] [99, 50, 45, 108, 48] \<and>
   \<not> hasEdge (edges (lowerFormula formula_C)) [99, 48, 45, 108, 48] [99, 48, 45, 108, 49]"
proof -
  have ne: "formula_C \<noteq> []" by (simp add: formula_C_def)
  have h': "list_all (\<lambda>c. length c = 3 \<and>
      list_all (\<lambda>l. variable l \<noteq> [] \<and> list_all is_alnum (variable l)) c) formula_C"
    by (simp add: formula_C_def lit_def nlit_def is_alnum_def)
  note T = graph_lowering[OF ne formula_C_hyp]
  from T have n: "length (literals (lowerFormula formula_C)) = 3 * length formula_C" by blast
  from T have L: "literals (lowerFormula formula_C) = formulaVertices formula_C" by blast
  from T have E: "\<And>v1 v2. v1 \<in> set (literals (lowerFormula formula_C)) \<Longrightarrow>
      v2 \<in> set (literals (lowerFormula formula_C)) \<Longrightarrow>
      hasEdge (edges (lowerFormula formula_C)) (lit_id v1) (lit_id v2) \<longleftrightarrow>
       (clauseIndex v1 \<noteq> clauseIndex v2 \<and> \<not> isContradictory v1 v2)" by blast
  define vA where "vA = \<lparr>variable = [65], negated = False, lit_id = [99, 48, 45, 108, 48], clauseIndex = 0, position = (60, 80)\<rparr>"
  define vB where "vB = \<lparr>variable = [66], negated = False, lit_id = [99, 48, 45, 108, 49], clauseIndex = 0, position = (100, 140)\<rparr>"
  define vD where "vD = \<lparr>variable = [68], negated = False, lit_id = [99, 49, 45, 108, 49], clauseIndex = 1, position = (200, 150)\<rparr>"
  define vY where "vY = \<lparr>variable = [89], negated = False, lit_id = [99, 49, 45, 108, 50], clauseIndex = 1, position = (240, 220)\<rparr>"
  define vnY where "vnY = \<lparr>variable = [89], negated = True, lit_id = [99, 50, 45, 108, 48], clauseIndex = 2, position = (300, 150)\<rparr>"
  have m: "vA \<in> set (literals (lowerFormula formula_C))" "vB \<in> set (literals (lowerFormula formula_C))"
    "vD \<in> set (literals (lowerFormula formula_C))" "vY \<in> set (literals (lowerFormula formula_C))"
    "vnY \<in> set (literals (lowerFormula formula_C))"
    unfolding L formula_C_vertices by (simp_all add: vA_def vB_def vD_def vY_def vnY_def)
  have 1: "hasEdge (edges (lowerFormula formula_C)) [99, 48, 45, 108, 49] [99, 49, 45, 108, 49]"
    using E[OF m(2) m(3)] by (simp add: vB_def vD_def isContradictory_def)
  have 2: "\<not> hasEdge (edges (lowerFormula formula_C)) [99, 49, 45, 108, 50] [99, 50, 45, 108, 48]"
    using E[OF m(4) m(5)] by (simp add: vY_def vnY_def isContradictory_def)
  have 3: "\<not> hasEdge (edges (lowerFormula formula_C)) [99, 48, 45, 108, 48] [99, 48, 45, 108, 49]"
    using E[OF m(1) m(2)] by (simp add: vA_def vB_def isContradictory_def)
  have ids: "map lit_id (literals (lowerFormula formula_C)) =
     [[99, 48, 45, 108, 48], [99, 48, 45, 108, 49], [99, 48, 45, 108, 50],
      [99, 49, 45, 108, 48], [99, 49, 45, 108, 49], [99, 49, 45, 108, 50],
      [99, 50, 45, 108, 48], [99, 50, 45, 108, 49], [99, 50, 45, 108, 50]]"
    unfolding L formula_C_vertices by simp
  have n9: "length (literals (lowerFormula formula_C)) = 9"
    using n by (simp add: formula_C_def)
  from ne h' n9 ids 1 2 3 show ?thesis by simp
qed

section \<open>Clique search\<close>

lemma cliqueLoop3_step:
  "cliqueLoop3 es l1 l2 (l3 # rest) =
     (if tripleOk es l1 l2 l3 then Some [lit_id l1, lit_id l2, lit_id l3]
      else cliqueLoop3 es l1 l2 rest)"
  by (simp add: tripleOk_def Let_def)

lemma cliqueLoop3_None:
  "cliqueLoop3 es l1 l2 g3 = None \<longleftrightarrow> (\<forall>l3\<in>set g3. \<not> tripleOk es l1 l2 l3)"
  by (induction g3) (simp_all add: cliqueLoop3_step del: cliqueLoop3.simps(2))

lemma cliqueLoop3_Some:
  "cliqueLoop3 es l1 l2 g3 = Some w \<Longrightarrow>
     \<exists>l3\<in>set g3. tripleOk es l1 l2 l3 \<and> w = [lit_id l1, lit_id l2, lit_id l3]"
  by (induction g3) (auto simp add: cliqueLoop3_step simp del: cliqueLoop3.simps(2) split: if_splits)

lemma cliqueLoop2_None:
  "cliqueLoop2 es l1 g2 g3 = None \<longleftrightarrow> (\<forall>l2\<in>set g2. \<forall>l3\<in>set g3. \<not> tripleOk es l1 l2 l3)"
proof (induction g2)
  case Nil
  then show ?case by simp
next
  case (Cons l2 g2)
  show ?case
  proof (cases "cliqueLoop3 es l1 l2 g3")
    case None
    with Cons.IH show ?thesis by (simp add: cliqueLoop3_None[symmetric])
  next
    case (Some w)
    from cliqueLoop3_Some[OF Some] have "\<exists>l3\<in>set g3. tripleOk es l1 l2 l3" by blast
    with Some show ?thesis by auto
  qed
qed

lemma cliqueLoop2_Some:
  "cliqueLoop2 es l1 g2 g3 = Some w \<Longrightarrow>
     \<exists>l2\<in>set g2. \<exists>l3\<in>set g3. tripleOk es l1 l2 l3 \<and> w = [lit_id l1, lit_id l2, lit_id l3]"
proof (induction g2)
  case Nil
  then show ?case by simp
next
  case (Cons l2 g2)
  show ?case
  proof (cases "cliqueLoop3 es l1 l2 g3")
    case None
    with Cons show ?thesis by auto
  next
    case (Some w')
    with Cons.prems have "w' = w" by simp
    with Some cliqueLoop3_Some[of es l1 l2 g3 w] show ?thesis by auto
  qed
qed

lemma cliqueLoop1_None:
  "cliqueLoop1 es g1 g2 g3 = None \<longleftrightarrow>
     (\<forall>l1\<in>set g1. \<forall>l2\<in>set g2. \<forall>l3\<in>set g3. \<not> tripleOk es l1 l2 l3)"
proof (induction g1)
  case Nil
  then show ?case by simp
next
  case (Cons l1 g1)
  show ?case
  proof (cases "cliqueLoop2 es l1 g2 g3")
    case None
    with Cons.IH show ?thesis by (simp add: cliqueLoop2_None[symmetric])
  next
    case (Some w)
    from cliqueLoop2_Some[OF Some]
    have "\<exists>l2\<in>set g2. \<exists>l3\<in>set g3. tripleOk es l1 l2 l3" by blast
    with Some show ?thesis by auto
  qed
qed

lemma cliqueLoop1_Some:
  "cliqueLoop1 es g1 g2 g3 = Some w \<Longrightarrow>
     \<exists>l1\<in>set g1. \<exists>l2\<in>set g2. \<exists>l3\<in>set g3.
       tripleOk es l1 l2 l3 \<and> w = [lit_id l1, lit_id l2, lit_id l3]"
proof (induction g1)
  case Nil
  then show ?case by simp
next
  case (Cons l1 g1)
  show ?case
  proof (cases "cliqueLoop2 es l1 g2 g3")
    case None
    with Cons show ?thesis by auto
  next
    case (Some w')
    with Cons.prems have "w' = w" by simp
    with Some cliqueLoop2_Some[of es l1 g2 g3 w] show ?thesis by auto
  qed
qed

lemma findClique_loop:
  "findClique g =
     (case cliqueLoop1 (edges g) (clauseGroup g 0) (clauseGroup g 1) (clauseGroup g 2) of
        Some w \<Rightarrow> w | None \<Rightarrow> [])"
  by (simp add: findClique_def clauseGroup_def Let_def)

text \<open>
  The search answers with the ids of a triple that passes the test, one vertex from each
  of the clause indices 0, 1 and 2, and with the empty list exactly when no triple passes.
\<close>

lemma findClique_found:
  assumes "findClique g \<noteq> []"
  shows "\<exists>l1\<in>set (clauseGroup g 0). \<exists>l2\<in>set (clauseGroup g 1). \<exists>l3\<in>set (clauseGroup g 2).
           tripleOk (edges g) l1 l2 l3 \<and> findClique g = [lit_id l1, lit_id l2, lit_id l3]"
proof (cases "cliqueLoop1 (edges g) (clauseGroup g 0) (clauseGroup g 1) (clauseGroup g 2)")
  case None
  with assms show ?thesis by (simp add: findClique_loop)
next
  case (Some w)
  then have "findClique g = w" by (simp add: findClique_loop)
  with cliqueLoop1_Some[OF Some] show ?thesis by simp
qed

lemma findClique_empty:
  "findClique g = [] \<longleftrightarrow>
     (\<forall>l1\<in>set (clauseGroup g 0). \<forall>l2\<in>set (clauseGroup g 1). \<forall>l3\<in>set (clauseGroup g 2).
        \<not> tripleOk (edges g) l1 l2 l3)"
proof (cases "cliqueLoop1 (edges g) (clauseGroup g 0) (clauseGroup g 1) (clauseGroup g 2)")
  case None
  then have "findClique g = []" by (simp add: findClique_loop)
  with None show ?thesis by (simp add: cliqueLoop1_None)
next
  case (Some w)
  from cliqueLoop1_Some[OF Some] have "w \<noteq> []" by auto
  with Some have "findClique g \<noteq> []" by (simp add: findClique_loop)
  moreover from Some have "\<not> (\<forall>l1\<in>set (clauseGroup g 0). \<forall>l2\<in>set (clauseGroup g 1).
      \<forall>l3\<in>set (clauseGroup g 2). \<not> tripleOk (edges g) l1 l2 l3)"
    using cliqueLoop1_None[of "edges g" "clauseGroup g 0" "clauseGroup g 1" "clauseGroup g 2"]
    by simp
  ultimately show ?thesis by simp
qed

lemma in_clauseGroup: "v \<in> set (clauseGroup g k) \<longleftrightarrow> v \<in> set (literals g) \<and> clauseIndex v = k"
  by (auto simp: clauseGroup_def)

text \<open>A result that is not empty is a triple from the first three clauses.\<close>

lemma found_is_triple:
  assumes "findClique g \<noteq> []"
  shows "length (findClique g) = 3 \<and>
    (\<forall>i<3. \<exists>v\<in>set (literals g). lit_id v = findClique g ! i \<and> clauseIndex v = i) \<and>
    (\<forall>i<3. \<forall>j<3. i \<noteq> j \<longrightarrow> hasEdge (edges g) (findClique g ! i) (findClique g ! j))"
proof -
  from findClique_found[OF assms] obtain l1 l2 l3 where
    m: "l1 \<in> set (clauseGroup g 0)" "l2 \<in> set (clauseGroup g 1)" "l3 \<in> set (clauseGroup g 2)"
    and ok: "tripleOk (edges g) l1 l2 l3"
    and w: "findClique g = [lit_id l1, lit_id l2, lit_id l3]" by blast
  have v: "\<exists>v\<in>set (literals g). lit_id v = findClique g ! i \<and> clauseIndex v = i" if "i < 3" for i
  proof -
    from that consider "i = 0" | "i = 1" | "i = 2" by linarith
    then show ?thesis
    proof cases
      case 1 with m(1) w show ?thesis by (auto simp: in_clauseGroup)
    next
      case 2 with m(2) w show ?thesis by (auto simp: in_clauseGroup)
    next
      case 3 with m(3) w show ?thesis by (auto simp: in_clauseGroup)
    qed
  qed
  have h: "hasEdge (edges g) (lit_id l1) (lit_id l2)" "hasEdge (edges g) (lit_id l1) (lit_id l3)"
    "hasEdge (edges g) (lit_id l2) (lit_id l3)"
    using ok by (simp_all add: tripleOk_def)
  have h': "hasEdge (edges g) (lit_id l2) (lit_id l1)" "hasEdge (edges g) (lit_id l3) (lit_id l1)"
    "hasEdge (edges g) (lit_id l3) (lit_id l2)"
    using h hasEdge_sym by blast+
  have e: "hasEdge (edges g) (findClique g ! i) (findClique g ! j)"
    if "i < 3" "j < 3" "i \<noteq> j" for i j
  proof -
    from that(1) consider "i = 0" | "i = 1" | "i = 2" by linarith
    then show ?thesis
    proof cases
      case 1
      from that(2,3) 1 consider "j = 1" | "j = 2" by linarith
      then show ?thesis using 1 w h by cases simp_all
    next
      case 2
      from that(2,3) 2 consider "j = 0" | "j = 2" by linarith
      then show ?thesis using 2 w h h' by cases simp_all
    next
      case 3
      from that(2,3) 3 consider "j = 0" | "j = 1" by linarith
      then show ?thesis using 3 w h' by cases simp_all
    qed
  qed
  from w v e show ?thesis by simp
qed

lemma witness_three:
  assumes "cliqueWitness g w" and "numClauses g = 3"
  shows "\<exists>l1\<in>set (clauseGroup g 0). \<exists>l2\<in>set (clauseGroup g 1). \<exists>l3\<in>set (clauseGroup g 2).
           tripleOk (edges g) l1 l2 l3"
proof -
  from assms have len: "length w = 3" by (simp add: cliqueWitness_def)
  have v: "\<exists>v\<in>set (literals g). lit_id v = w ! i \<and> clauseIndex v = i" if "i < 3" for i
    using assms(1) len that by (simp add: cliqueWitness_def)
  have e: "hasEdge (edges g) (w ! i) (w ! j)" if "i < 3" "j < 3" "i \<noteq> j" for i j
    using assms(1) len that by (simp add: cliqueWitness_def)
  from v[of 0] obtain l1 where l1: "l1 \<in> set (clauseGroup g 0)" "lit_id l1 = w ! 0"
    by (auto simp: in_clauseGroup)
  from v[of 1] obtain l2 where l2: "l2 \<in> set (clauseGroup g 1)" "lit_id l2 = w ! 1"
    by (auto simp: in_clauseGroup)
  from v[of 2] obtain l3 where l3: "l3 \<in> set (clauseGroup g 2)" "lit_id l3 = w ! 2"
    by (auto simp: in_clauseGroup)
  have "tripleOk (edges g) l1 l2 l3"
    using e[of 0 1] e[of 0 2] e[of 1 2] l1(2) l2(2) l3(2) by (simp add: tripleOk_def)
  with l1(1) l2(1) l3(1) show ?thesis by blast
qed

lemma litsOf_nonempty: "litsOf cl \<noteq> []"
  by (simp add: litsOf_def split_on_nonempty)

text \<open>The clause indices of a lowered graph are those of the pieces between AND symbols.\<close>

lemma clauseIndex_lowered:
  "clauseIndex ` set (literals (parseFormulaToGraph t)) = {0 ..< length (split_on c_AND t)}"
proof -
  have n: "length (graphClauses t) = length (split_on c_AND t)" by (simp add: graphClauses_def)
  show ?thesis
  proof (rule set_eqI)
    fix k
    show "k \<in> clauseIndex ` set (literals (parseFormulaToGraph t)) \<longleftrightarrow>
          k \<in> {0 ..< length (split_on c_AND t)}"
    proof
      assume "k \<in> clauseIndex ` set (literals (parseFormulaToGraph t))"
      then obtain v where "v \<in> set (literals (parseFormulaToGraph t))" "k = clauseIndex v" by blast
      then obtain ci li where "ci < length (graphClauses t)" "v = makeLiteral ci li (litsOf (graphClauses t ! ci) ! li)"
        unfolding in_literals by blast
      with \<open>k = clauseIndex v\<close> n show "k \<in> {0 ..< length (split_on c_AND t)}" by simp
    next
      assume "k \<in> {0 ..< length (split_on c_AND t)}"
      then have k: "k < length (graphClauses t)" using n by simp
      have "0 < length (litsOf (graphClauses t ! k))" using litsOf_nonempty by blast
      with k have "makeLiteral k 0 (litsOf (graphClauses t ! k) ! 0) \<in> set (literals (parseFormulaToGraph t))"
        unfolding in_literals by blast
      then have "clauseIndex (makeLiteral k 0 (litsOf (graphClauses t ! k) ! 0)) \<in>
          clauseIndex ` set (literals (parseFormulaToGraph t))" by (rule imageI)
      then show "k \<in> clauseIndex ` set (literals (parseFormulaToGraph t))" by simp
    qed
  qed
qed

lemma numClauses_lowered: "numClauses (parseFormulaToGraph t) = length (split_on c_AND t)"
proof -
  have "numClauses (parseFormulaToGraph t) = card (clauseIndex ` set (literals (parseFormulaToGraph t)))"
    by (simp add: numClauses_def length_remdups_card_conv)
  then show ?thesis by (simp add: clauseIndex_lowered)
qed

lemma findClique_nonempty:
  assumes "v1 \<in> set (literals (parseFormulaToGraph t))"
    and "v2 \<in> set (literals (parseFormulaToGraph t))"
    and "v3 \<in> set (literals (parseFormulaToGraph t))"
    and "clauseIndex v1 = 0" and "clauseIndex v2 = 1" and "clauseIndex v3 = 2"
    and "\<not> isContradictory v1 v2" and "\<not> isContradictory v1 v3" and "\<not> isContradictory v2 v3"
  shows "findClique (parseFormulaToGraph t) \<noteq> []"
proof -
  have "tripleOk (edges (parseFormulaToGraph t)) v1 v2 v3"
    unfolding tripleOk_def
    using hasEdge_lowered[OF assms(1) assms(2)] hasEdge_lowered[OF assms(1) assms(3)]
      hasEdge_lowered[OF assms(2) assms(3)] assms(4-9)
    by simp
  moreover have "v1 \<in> set (clauseGroup (parseFormulaToGraph t) 0)"
    "v2 \<in> set (clauseGroup (parseFormulaToGraph t) 1)"
    "v3 \<in> set (clauseGroup (parseFormulaToGraph t) 2)"
    using assms(1-6) by (simp_all add: in_clauseGroup)
  ultimately show ?thesis
    unfolding findClique_empty by blast
qed

lemma formula_D_hyp: "wellFormed formula_D"
  by (simp add: wellFormed_def isVariableToken_def formula_D_def lit_def is_alnum_def)

lemma formula_D_found: "findClique (lowerFormula formula_D) \<noteq> []"
proof -
  have ne: "formula_D \<noteq> []" by (simp add: formula_D_def)
  have L: "literals (parseFormulaToGraph (formulaToString formula_D)) = formulaVertices formula_D"
    by (rule literals_render[OF formula_D_hyp ne])
  have m: "vertexOf 0 0 (lit [65]) \<in> set (literals (parseFormulaToGraph (formulaToString formula_D)))"
    "vertexOf 1 0 (lit [68]) \<in> set (literals (parseFormulaToGraph (formulaToString formula_D)))"
    "vertexOf 2 0 (lit [71]) \<in> set (literals (parseFormulaToGraph (formulaToString formula_D)))"
    unfolding L by (simp_all add: formulaVertices_def formula_D_def numeral_2_eq_2)
  show ?thesis
    unfolding lowerFormula_def
    by (rule findClique_nonempty[OF m]) (simp_all add: vertexOf_def isContradictory_def lit_def)
qed

lemma formula_C_found: "findClique (lowerFormula formula_C) \<noteq> []"
proof -
  have wf: "wellFormed formula_C"
    by (simp add: wellFormed_def isVariableToken_def formula_C_def lit_def nlit_def is_alnum_def)
  have ne: "formula_C \<noteq> []" by (simp add: formula_C_def)
  have L: "literals (parseFormulaToGraph (formulaToString formula_C)) = formulaVertices formula_C"
    by (rule literals_render[OF wf ne])
  have m: "vertexOf 0 0 (lit [65]) \<in> set (literals (parseFormulaToGraph (formulaToString formula_C)))"
    "vertexOf 1 0 (nlit [67]) \<in> set (literals (parseFormulaToGraph (formulaToString formula_C)))"
    "vertexOf 2 0 (nlit [89]) \<in> set (literals (parseFormulaToGraph (formulaToString formula_C)))"
    unfolding L by (simp_all add: formulaVertices_def formula_C_def numeral_2_eq_2)
  show ?thesis
    unfolding lowerFormula_def
    by (rule findClique_nonempty[OF m])
      (simp_all add: vertexOf_def isContradictory_def lit_def nlit_def)
qed

lemma text_unsat_no_clique: "findClique (parseFormulaToGraph text_unsat) = []"
proof -
  define vA where "vA = \<lparr>variable = [65], negated = False, lit_id = [99, 48, 45, 108, 48],
    clauseIndex = 0, position = (60, 80)\<rparr>"
  define vnA where "vnA = \<lparr>variable = [65], negated = True, lit_id = [99, 49, 45, 108, 48],
    clauseIndex = 1, position = (200, 80)\<rparr>"
  define vB where "vB = \<lparr>variable = [66], negated = False, lit_id = [99, 50, 45, 108, 48],
    clauseIndex = 2, position = (300, 150)\<rparr>"
  have L: "literals (parseFormulaToGraph text_unsat) = [vA, vnA, vB]"
    by (simp add: text_unsat_def parseFormulaToGraph_def clauseLiterals_def makeLiteral_def
        literalId_def positionOf_def positions_def show_nat_small string_eval Let_def
        vA_def vnA_def vB_def)
  have g0: "clauseGroup (parseFormulaToGraph text_unsat) 0 = [vA]"
    and g1: "clauseGroup (parseFormulaToGraph text_unsat) 1 = [vnA]"
    by (simp_all add: clauseGroup_def L vA_def vnA_def vB_def)
  have m: "vA \<in> set (literals (parseFormulaToGraph text_unsat))"
    "vnA \<in> set (literals (parseFormulaToGraph text_unsat))"
    by (simp_all add: L)
  have "\<not> hasEdge (edges (parseFormulaToGraph text_unsat)) (lit_id vA) (lit_id vnA)"
    unfolding hasEdge_lowered[OF m] by (simp add: isContradictory_def vA_def vnA_def)
  then have "\<not> tripleOk (edges (parseFormulaToGraph text_unsat)) vA vnA l3" for l3
    by (simp add: tripleOk_def)
  then show ?thesis
    unfolding findClique_empty g0 g1 by simp
qed

lemma no_third_group:
  assumes "length (split_on c_AND t) < 3"
  shows "clauseGroup (parseFormulaToGraph t) 2 = []"
proof -
  have "2 \<notin> clauseIndex ` set (literals (parseFormulaToGraph t))"
    unfolding clauseIndex_lowered using assms by simp
  then have "\<forall>v\<in>set (literals (parseFormulaToGraph t)). clauseIndex v \<noteq> 2"
    by (auto simp: image_iff)
  then show ?thesis by (simp add: clauseGroup_def filter_empty_conv)
qed

text \<open>
  C3, as the claim states it, fails: \<^verbatim>\<open>findClique\<close> looks at the clause indices 0, 1
  and 2 only. On the graph of a formula of four clauses it returns three vertices, which is
  neither the absent result nor one vertex for each of the four clauses.
\<close>

theorem findClique_four_clauses_counterexample:
  "\<not> (findClique (lowerFormula formula_D) = [] \<or>
      cliqueWitness (lowerFormula formula_D) (findClique (lowerFormula formula_D)))"
proof -
  have "length (split_on c_AND (formulaToString formula_D)) = 4"
    by (simp add: formula_D_def render_eval)
  then have n: "numClauses (lowerFormula formula_D) = 4"
    by (simp add: lowerFormula_def numClauses_lowered)
  have "length (findClique (lowerFormula formula_D)) = 3"
    using found_is_triple[OF formula_D_found] by blast
  with n have "\<not> cliqueWitness (lowerFormula formula_D) (findClique (lowerFormula formula_D))"
    by (simp add: cliqueWitness_def)
  with formula_D_found show ?thesis by blast
qed

text \<open>
  C3, amended. For every lowered graph of at most three clauses, \<^verbatim>\<open>findClique\<close>
  returns either a witness, exactly one vertex for each clause with every two of them
  joined by an edge, or the absent result (the empty list); it never returns a partial or
  non-clique selection. For a graph of exactly three clauses it returns the absent result
  only when the graph has no witness.
\<close>

theorem findClique_up_to_three_clauses:
  "(length (split_on c_AND t) \<le> 3 \<longrightarrow>
      findClique (parseFormulaToGraph t) = [] \<or>
      cliqueWitness (parseFormulaToGraph t) (findClique (parseFormulaToGraph t))) \<and>
   (length (split_on c_AND t) = 3 \<and> findClique (parseFormulaToGraph t) = [] \<longrightarrow>
      (\<forall>w. \<not> cliqueWitness (parseFormulaToGraph t) w))"
proof (intro conjI impI)
  assume le: "length (split_on c_AND t) \<le> 3"
  show "findClique (parseFormulaToGraph t) = [] \<or>
      cliqueWitness (parseFormulaToGraph t) (findClique (parseFormulaToGraph t))"
  proof (cases "length (split_on c_AND t) = 3")
    case True
    then have n: "numClauses (parseFormulaToGraph t) = 3" by (simp add: numClauses_lowered)
    show ?thesis
    proof (cases "findClique (parseFormulaToGraph t) = []")
      case False
      from found_is_triple[OF False] n
      have "cliqueWitness (parseFormulaToGraph t) (findClique (parseFormulaToGraph t))"
        by (simp add: cliqueWitness_def)
      then show ?thesis by blast
    qed blast
  next
    case False
    with le have "length (split_on c_AND t) < 3" by simp
    then have "clauseGroup (parseFormulaToGraph t) 2 = []" by (rule no_third_group)
    then have "findClique (parseFormulaToGraph t) = []"
      unfolding findClique_empty by simp
    then show ?thesis by blast
  qed
next
  assume a: "length (split_on c_AND t) = 3 \<and> findClique (parseFormulaToGraph t) = []"
  then have n: "numClauses (parseFormulaToGraph t) = 3" by (simp add: numClauses_lowered)
  show "\<forall>w. \<not> cliqueWitness (parseFormulaToGraph t) w"
  proof (intro allI notI)
    fix w assume "cliqueWitness (parseFormulaToGraph t) w"
    from witness_three[OF this n] a show False
      unfolding findClique_empty by blast
  qed
qed

theorem findClique_up_to_three_clauses_witness:
  "length (split_on c_AND (formulaToString formula_C)) = 3 \<and>
   findClique (parseFormulaToGraph (formulaToString formula_C)) \<noteq> [] \<and>
   cliqueWitness (parseFormulaToGraph (formulaToString formula_C))
     (findClique (parseFormulaToGraph (formulaToString formula_C))) \<and>
   length (split_on c_AND text_unsat) = 3 \<and>
   findClique (parseFormulaToGraph text_unsat) = [] \<and>
   (\<forall>w. \<not> cliqueWitness (parseFormulaToGraph text_unsat) w)"
proof -
  have h: "length (split_on c_AND (formulaToString formula_C)) = 3"
    by (simp add: formula_C_def render_eval)
  have f: "findClique (parseFormulaToGraph (formulaToString formula_C)) \<noteq> []"
    using formula_C_found by (simp add: lowerFormula_def)
  have 1: "cliqueWitness (parseFormulaToGraph (formulaToString formula_C))
     (findClique (parseFormulaToGraph (formulaToString formula_C)))"
    using findClique_up_to_three_clauses[of "formulaToString formula_C"] h f by simp
  have h': "length (split_on c_AND text_unsat) = 3"
    by (simp add: text_unsat_def)
  have 2: "\<forall>w. \<not> cliqueWitness (parseFormulaToGraph text_unsat) w"
    using findClique_up_to_three_clauses[of text_unsat] h' text_unsat_no_clique by simp
  from h f 1 h' text_unsat_no_clique 2 show ?thesis by simp
qed

text \<open>The search reads the edges only through the test \<open>hasEdge\<close>, and so only as a set.\<close>

lemma hasEdge_set: "set es = set es' \<Longrightarrow> hasEdge es a b = hasEdge es' a b"
  by (simp add: hasEdge_iff)

lemma cliqueLoop3_edges:
  "set es = set es' \<Longrightarrow> cliqueLoop3 es l1 l2 g3 = cliqueLoop3 es' l1 l2 g3"
  by (induction g3) (simp_all add: hasEdge_set[of es es'])

lemma cliqueLoop2_edges:
  "set es = set es' \<Longrightarrow> cliqueLoop2 es l1 g2 g3 = cliqueLoop2 es' l1 g2 g3"
  by (induction g2) (simp_all add: cliqueLoop3_edges[of es es'] split: option.split)

lemma cliqueLoop1_edges:
  "set es = set es' \<Longrightarrow> cliqueLoop1 es g1 g2 g3 = cliqueLoop1 es' g1 g2 g3"
  by (induction g1) (simp_all add: cliqueLoop2_edges[of es es'] split: option.split)

text \<open>
  C8. Clique search is deterministic: on two graphs with the same vertices (with their
  clause indices, in the same order) and the same set of edges, \<^verbatim>\<open>findClique\<close> returns
  the same result, the same witness or the absent result both times.
\<close>

theorem findClique_deterministic:
  assumes "literals g1 = literals g2" and "set (edges g1) = set (edges g2)"
  shows "findClique g1 = findClique g2"
  using assms cliqueLoop1_edges[OF assms(2)] by (simp add: findClique_def Let_def)

theorem findClique_deterministic_witness:
  "literals (lowerFormula formula_C) =
     literals ((lowerFormula formula_C)\<lparr>edges := rev (edges (lowerFormula formula_C))\<rparr>) \<and>
   set (edges (lowerFormula formula_C)) =
     set (edges ((lowerFormula formula_C)\<lparr>edges := rev (edges (lowerFormula formula_C))\<rparr>)) \<and>
   findClique (lowerFormula formula_C) =
     findClique ((lowerFormula formula_C)\<lparr>edges := rev (edges (lowerFormula formula_C))\<rparr>)"
proof -
  have 1: "literals (lowerFormula formula_C) =
     literals ((lowerFormula formula_C)\<lparr>edges := rev (edges (lowerFormula formula_C))\<rparr>)"
    by simp
  have 2: "set (edges (lowerFormula formula_C)) =
     set (edges ((lowerFormula formula_C)\<lparr>edges := rev (edges (lowerFormula formula_C))\<rparr>))"
    by simp
  from findClique_deterministic[OF 1 2] 1 2 show ?thesis by blast
qed

end
